theory Spec2Isabelle
  imports Complex_Main "HOL-Library.Signed_Division"
begin

section \<open>Data model\<close>

text \<open>
  The rope of \<^verbatim>\<open>main.go\<close> is a tree of heap nodes that are shared between snapshots and,
  in \<^verbatim>\<open>adjust\<close> and \<^verbatim>\<open>Rebalance\<close>, overwritten in place. The nodes therefore live in
  an explicit store: a list of node records, an address being an index into it, a pointer
  being an optional address (\<open>None\<close> is Go's \<^verbatim>\<open>nil\<close>). Allocation appends to the store.

  A Go slice is modelled by the list of its elements, and a slice-typed field by an
  optional list, \<open>None\<close> being the \<^verbatim>\<open>nil\<close> slice that the code uses as the mark of a split
  node. Capacity is not modelled: a slice expression whose bounds leave \<open>0..len\<close> is a
  panic here. Go integers are modelled by unbounded integers; lengths of real slices do
  not reach the word size. \<^verbatim>\<open>float32\<close> is the type parameter \<open>'f\<close>, and the one
  floating-point comparison of the program is a parameter of \<open>Rebalance\<close>. The settings
  pointer of a node is modelled by the settings it points to, which the library never
  writes; a \<^verbatim>\<open>nil\<close> settings pointer is not modelled. The zero value of the element type
  is the \<open>0\<close> of the type class \<open>zero\<close>.

  Every function that recurses takes a fuel argument that bounds the depth of the calls,
  so that a call that would not return is the value \<open>Inl OutOfFuel\<close> for every fuel, and a
  runtime panic is the value \<open>Inl Panic\<close>.
\<close>

datatype error = Panic | OutOfFuel

record 'f Settings =
  SplitLength :: int
  JoinLength :: int
  Rebalance :: 'f

record ('a, 'f) Rope =
  value_r :: "'a list option"
  length_r :: int
  left :: "nat option"
  right :: "nat option"
  settings :: "'f Settings"

type_synonym ptr = "nat option"

type_synonym ('a, 'f) heap = "('a, 'f) Rope list"

subsection \<open>Results, pointers and the store\<close>

definition bindR :: "error + 'a \<Rightarrow> ('a \<Rightarrow> error + 'b) \<Rightarrow> error + 'b" where
  "bindR m f = (case m of Inl e \<Rightarrow> Inl e | Inr x \<Rightarrow> f x)"

definition deref :: "('a, 'f) heap \<Rightarrow> ptr \<Rightarrow> error + ('a, 'f) Rope" where
  "deref h p = (case p of None \<Rightarrow> Inl Panic
     | Some a \<Rightarrow> if a < length h then Inr (h ! a) else Inl Panic)"

definition field :: "('a, 'f) heap \<Rightarrow> ptr \<Rightarrow> (('a, 'f) Rope \<Rightarrow> 'b) \<Rightarrow> error + 'b" where
  "field h p f = bindR (deref h p) (\<lambda>nd. Inr (f nd))"

definition modify ::
  "('a, 'f) heap \<Rightarrow> ptr \<Rightarrow> (('a, 'f) Rope \<Rightarrow> ('a, 'f) Rope) \<Rightarrow> error + ('a, 'f) heap" where
  "modify h p f = (case p of None \<Rightarrow> Inl Panic
     | Some a \<Rightarrow> if a < length h then Inr (h[a := f (h ! a)]) else Inl Panic)"

definition alloc :: "('a, 'f) heap \<Rightarrow> ('a, 'f) Rope \<Rightarrow> ('a, 'f) heap \<times> ptr" where
  "alloc h nd = (h @ [nd], Some (length h))"

subsection \<open>Slices\<close>

text \<open>\<^verbatim>\<open>len(s)\<close> and the elements of a possibly \<^verbatim>\<open>nil\<close> slice.\<close>

definition len :: "'a list option \<Rightarrow> int" where
  "len s = (case s of None \<Rightarrow> 0 | Some v \<Rightarrow> int (length v))"

definition elems :: "'a list option \<Rightarrow> 'a list" where
  "elems s = (case s of None \<Rightarrow> [] | Some v \<Rightarrow> v)"

text \<open>\<^verbatim>\<open>make([]T, n)\<close>: \<open>n\<close> zero values; a negative length panics.\<close>

definition make :: "int \<Rightarrow> error + ('a::zero) list" where
  "make n = (if n < 0 then Inl Panic else Inr (replicate (nat n) 0))"

text \<open>The slice expressions \<^verbatim>\<open>s[:j]\<close>, \<^verbatim>\<open>s[i:]\<close> and \<^verbatim>\<open>s[i:j]\<close>.\<close>

definition slice_to :: "'a list \<Rightarrow> int \<Rightarrow> error + 'a list" where
  "slice_to s j = (if 0 \<le> j \<and> j \<le> int (length s) then Inr (take (nat j) s) else Inl Panic)"

definition slice_from :: "'a list \<Rightarrow> int \<Rightarrow> error + 'a list" where
  "slice_from s i = (if 0 \<le> i \<and> i \<le> int (length s) then Inr (drop (nat i) s) else Inl Panic)"

definition slice :: "'a list \<Rightarrow> int \<Rightarrow> int \<Rightarrow> error + 'a list" where
  "slice s i j = (if 0 \<le> i \<and> i \<le> j \<and> j \<le> int (length s)
     then Inr (take (nat (j - i)) (drop (nat i) s)) else Inl Panic)"

text \<open>
  The builtin \<^verbatim>\<open>copy(dst, src)\<close> overwrites the first \<open>min (len dst) (len src)\<close> elements
  of \<open>dst\<close>; the result is the new content of \<open>dst\<close>. \<open>copy_at dst i src\<close> is
  \<^verbatim>\<open>copy(dst[i:], src)\<close>, a write through a sub-slice of \<open>dst\<close>.
\<close>

definition copy :: "'a list \<Rightarrow> 'a list \<Rightarrow> 'a list" where
  "copy dst src = take (length dst) src @ drop (length src) dst"

definition copy_at :: "'a list \<Rightarrow> int \<Rightarrow> 'a list \<Rightarrow> error + 'a list" where
  "copy_at dst i src = bindR (slice_from dst i) (\<lambda>sub. Inr (take (nat i) dst @ copy sub src))"

section \<open>The operations of main.go\<close>

text \<open>\<^verbatim>\<open>bound\<close> clips both indexes into \<open>0..length\<close>.\<close>

definition bound :: "int \<Rightarrow> int \<Rightarrow> int \<Rightarrow> int \<times> int" where
  "bound start end' length' =
     ((if start < 0 then 0 else if start > length' then length' else start),
      (if end' < 0 then 0 else if end' > length' then length' else end'))"

text \<open>
  \<^verbatim>\<open>Copy\<close> writes the content of the rope into \<open>dst\<close> and leaves the store alone; the
  result is the new content of \<open>dst\<close>. The right child writes through \<^verbatim>\<open>dst[r.left.length:]\<close>.
\<close>

fun Copy :: "nat \<Rightarrow> ('a, 'f) heap \<Rightarrow> ptr \<Rightarrow> 'a list \<Rightarrow> error + 'a list" where
  "Copy 0 h r dst = Inl OutOfFuel"
| "Copy (Suc n) h r dst =
     bindR (deref h r) (\<lambda>nd.
       case value_r nd of
         Some v \<Rightarrow> Inr (copy dst v)
       | None \<Rightarrow>
           bindR (Copy n h (left nd) dst) (\<lambda>d1.
           bindR (field h (left nd) length_r) (\<lambda>ll.
           bindR (slice_from d1 ll) (\<lambda>sub.
           bindR (Copy n h (right nd) sub) (\<lambda>d2.
           Inr (take (nat ll) d1 @ d2))))))"

text \<open>
  \<^verbatim>\<open>NewRope\<close> allocates the node and adjusts it. \<^verbatim>\<open>adjust\<close> splits a leaf that is too
  long, building both halves with \<^verbatim>\<open>NewRope\<close>, or joins a split node that is too short.
  The join copies the right child through \<^verbatim>\<open>r.value[:r.left.length]\<close>, as the source does.
  Integer division in Go truncates towards zero (\<open>sdiv\<close>).
\<close>

fun NewRope ::
    "nat \<Rightarrow> ('a::zero, 'f) heap \<Rightarrow> 'a list option \<Rightarrow> 'f Settings \<Rightarrow> error + (('a, 'f) heap \<times> ptr)"
  and adjust :: "nat \<Rightarrow> ('a::zero, 'f) heap \<Rightarrow> ptr \<Rightarrow> error + ('a, 'f) heap" where
  "NewRope 0 h v s = Inl OutOfFuel"
| "NewRope (Suc n) h v s =
     (let (h1, rope) = alloc h \<lparr>value_r = v, length_r = len v,
                                left = None, right = None, settings = s\<rparr>
      in bindR (adjust n h1 rope) (\<lambda>h2. Inr (h2, rope)))"
| "adjust 0 h r = Inl OutOfFuel"
| "adjust (Suc n) h r =
     bindR (deref h r) (\<lambda>nd.
       if value_r nd \<noteq> None \<and> length_r nd > SplitLength (settings nd) then
         bindR (slice_to (elems (value_r nd)) (length_r nd sdiv 2)) (\<lambda>v1.
         bindR (NewRope n h (Some v1) (settings nd)) (\<lambda>(h1, l).
         bindR (modify h1 r (\<lambda>x. x\<lparr>left := l\<rparr>)) (\<lambda>h2.
         bindR (deref h2 r) (\<lambda>nd2.
         bindR (slice_from (elems (value_r nd2)) (length_r nd2 sdiv 2)) (\<lambda>v2.
         bindR (NewRope n h2 (Some v2) (settings nd2)) (\<lambda>(h3, rr).
         bindR (modify h3 r (\<lambda>x. x\<lparr>right := rr\<rparr>)) (\<lambda>h4.
         modify h4 r (\<lambda>x. x\<lparr>value_r := None\<rparr>))))))))
       else if value_r nd = None \<and> length_r nd < JoinLength (settings nd) then
         bindR (make (length_r nd)) (\<lambda>buf.
         bindR (modify h r (\<lambda>x. x\<lparr>value_r := Some buf\<rparr>)) (\<lambda>h1.
         bindR (deref h1 r) (\<lambda>nd1.
         bindR (Copy n h1 (left nd1) (elems (value_r nd1))) (\<lambda>d1.
         bindR (modify h1 r (\<lambda>x. x\<lparr>value_r := Some d1\<rparr>)) (\<lambda>h2.
         bindR (deref h2 r) (\<lambda>nd2.
         bindR (field h2 (left nd2) length_r) (\<lambda>ll.
         bindR (slice_to (elems (value_r nd2)) ll) (\<lambda>sub.
         bindR (Copy n h2 (right nd2) sub) (\<lambda>d2.
         bindR (modify h2 r (\<lambda>x. x\<lparr>value_r :=
                    Some (d2 @ drop (nat ll) (elems (value_r nd2)))\<rparr>)) (\<lambda>h3.
         bindR (modify h3 r (\<lambda>x. x\<lparr>left := None\<rparr>)) (\<lambda>h4.
         modify h4 r (\<lambda>x. x\<lparr>right := None\<rparr>))))))))))))
       else Inr h)"

text \<open>
  \<^verbatim>\<open>Remove\<close> returns the receiver itself when the range is empty, rebuilds a leaf
  through \<^verbatim>\<open>NewRope\<close>, and for a split node allocates the node \<open>changed\<close>, removes the
  clipped ranges from both children, sums their lengths and adjusts.
\<close>

fun Remove ::
    "nat \<Rightarrow> ('a::zero, 'f) heap \<Rightarrow> ptr \<Rightarrow> int \<Rightarrow> int \<Rightarrow> error + (('a, 'f) heap \<times> ptr)" where
  "Remove 0 h r start end' = Inl OutOfFuel"
| "Remove (Suc n) h r start end' =
     (if start = end' then Inr (h, r)
      else bindR (deref h r) (\<lambda>nd.
        case value_r nd of
          Some v \<Rightarrow>
            bindR (make (length_r nd - (end' - start))) (\<lambda>newValue.
            bindR (slice_to v start) (\<lambda>s1.
            bindR (slice_from v end') (\<lambda>s2.
            bindR (copy_at (copy newValue s1) start s2) (\<lambda>newValue'.
            NewRope n h (Some newValue') (settings nd)))))
        | None \<Rightarrow>
            (let (h1, changed) = alloc h \<lparr>value_r = None, length_r = 0,
                                   left = None, right = None, settings = settings nd\<rparr>
             in bindR (field h1 r left) (\<lambda>l.
                bindR (field h1 l length_r) (\<lambda>ll.
                let (leftStart, leftEnd) = bound start end' ll in
                bindR (Remove n h1 l leftStart leftEnd) (\<lambda>(h2, l').
                bindR (modify h2 changed (\<lambda>x. x\<lparr>left := l'\<rparr>)) (\<lambda>h3.
                bindR (field h3 r left) (\<lambda>l3.
                bindR (field h3 l3 length_r) (\<lambda>ll3.
                bindR (field h3 r right) (\<lambda>r3.
                bindR (field h3 r3 length_r) (\<lambda>rl3.
                let (rightStart, rightEnd) = bound (start - ll3) (end' - ll3) rl3 in
                bindR (Remove n h3 r3 rightStart rightEnd) (\<lambda>(h4, r').
                bindR (modify h4 changed (\<lambda>x. x\<lparr>right := r'\<rparr>)) (\<lambda>h5.
                bindR (field h5 changed left) (\<lambda>cl.
                bindR (field h5 cl length_r) (\<lambda>cll.
                bindR (field h5 changed right) (\<lambda>cr.
                bindR (field h5 cr length_r) (\<lambda>crl.
                bindR (modify h5 changed (\<lambda>x. x\<lparr>length_r := cll + crl\<rparr>)) (\<lambda>h6.
                bindR (adjust n h6 changed) (\<lambda>h7.
                Inr (h7, changed))))))))))))))))))))"

text \<open>
  \<^verbatim>\<open>Insert\<close> rebuilds a leaf through \<^verbatim>\<open>NewRope\<close>; for a split node it allocates a
  copy of the node with the new length and replaces the child the index falls into. It
  does not adjust the new node.
\<close>

fun Insert ::
    "nat \<Rightarrow> ('a::zero, 'f) heap \<Rightarrow> ptr \<Rightarrow> int \<Rightarrow> 'a list \<Rightarrow> error + (('a, 'f) heap \<times> ptr)" where
  "Insert 0 h r index insertion = Inl OutOfFuel"
| "Insert (Suc n) h r index insertion =
     bindR (deref h r) (\<lambda>nd.
       case value_r nd of
         Some v \<Rightarrow>
           bindR (make (length_r nd + int (length insertion))) (\<lambda>newValue.
           bindR (slice_to v index) (\<lambda>s1.
           bindR (copy_at (copy newValue s1) index insertion) (\<lambda>newValue1.
           bindR (slice_from v index) (\<lambda>s2.
           bindR (copy_at newValue1 (index + int (length insertion)) s2) (\<lambda>newValue2.
           NewRope n h (Some newValue2) (settings nd))))))
       | None \<Rightarrow>
           (let (h1, changed) = alloc h \<lparr>value_r = None,
                                  length_r = length_r nd + int (length insertion),
                                  left = left nd, right = right nd, settings = settings nd\<rparr>
            in bindR (field h1 r left) (\<lambda>l.
               bindR (field h1 l length_r) (\<lambda>ll.
               if index < ll then
                 bindR (Insert n h1 l index insertion) (\<lambda>(h2, l').
                 bindR (modify h2 changed (\<lambda>x. x\<lparr>left := l'\<rparr>)) (\<lambda>h3.
                 Inr (h3, changed)))
               else
                 bindR (field h1 r right) (\<lambda>r1.
                 bindR (Insert n h1 r1 (index - ll) insertion) (\<lambda>(h2, r').
                 bindR (modify h2 changed (\<lambda>x. x\<lparr>right := r'\<rparr>)) (\<lambda>h3.
                 Inr (h3, changed))))))))"

text \<open>
  \<^verbatim>\<open>CopySlice\<close> writes the elements \<open>start..<end\<close> of the rope into \<open>dst\<close>; the right
  child writes through \<^verbatim>\<open>dst[leftEnd - leftStart:]\<close>.
\<close>

fun CopySlice ::
    "nat \<Rightarrow> ('a, 'f) heap \<Rightarrow> ptr \<Rightarrow> 'a list \<Rightarrow> int \<Rightarrow> int \<Rightarrow> error + 'a list" where
  "CopySlice 0 h r dst start end' = Inl OutOfFuel"
| "CopySlice (Suc n) h r dst start end' =
     (if start = end' then Inr dst
      else bindR (deref h r) (\<lambda>nd.
        case value_r nd of
          Some v \<Rightarrow> bindR (slice v start end') (\<lambda>s. Inr (copy dst s))
        | None \<Rightarrow>
            bindR (field h (left nd) length_r) (\<lambda>ll.
            let (leftStart, leftEnd) = bound start end' ll in
            bindR (CopySlice n h (left nd) dst leftStart leftEnd) (\<lambda>d1.
            bindR (field h (right nd) length_r) (\<lambda>rl.
            let (rightStart, rightEnd) = bound (start - ll) (end' - ll) rl in
            bindR (slice_from d1 (leftEnd - leftStart)) (\<lambda>sub.
            bindR (CopySlice n h (right nd) sub rightStart rightEnd) (\<lambda>d2.
            Inr (take (nat (leftEnd - leftStart)) d1 @ d2))))))))"

definition Value :: "nat \<Rightarrow> ('a::zero, 'f) heap \<Rightarrow> ptr \<Rightarrow> error + 'a list" where
  "Value n h r =
     bindR (field h r length_r) (\<lambda>l.
     bindR (make l) (\<lambda>value'.
     Copy n h r value'))"

definition Slice :: "nat \<Rightarrow> ('a::zero, 'f) heap \<Rightarrow> ptr \<Rightarrow> int \<Rightarrow> int \<Rightarrow> error + 'a list" where
  "Slice n h r start end' =
     bindR (make (end' - start)) (\<lambda>value'.
     CopySlice n h r value' start end')"

definition Length :: "('a, 'f) heap \<Rightarrow> ptr \<Rightarrow> error + int" where
  "Length h r = field h r length_r"

text \<open>
  \<^verbatim>\<open>Rebalance\<close> works in place: it either overwrites the node with a rope rebuilt from
  its value, or rebalances both children. The argument \<open>gt a b x\<close> stands for the
  floating-point test \<^verbatim>\<open>float32(a) / float32(b) > x\<close>, which is not modelled.
\<close>

fun Rebalance ::
    "(int \<Rightarrow> int \<Rightarrow> 'f \<Rightarrow> bool) \<Rightarrow> nat \<Rightarrow> ('a::zero, 'f) heap \<Rightarrow> ptr \<Rightarrow> error + ('a, 'f) heap" where
  "Rebalance gt 0 h r = Inl OutOfFuel"
| "Rebalance gt (Suc n) h r =
     bindR (deref h r) (\<lambda>nd.
       if value_r nd \<noteq> None then Inr h
       else
         bindR (field h (left nd) length_r) (\<lambda>ll.
         bindR (field h (right nd) length_r) (\<lambda>rl.
         if gt ll rl (Settings.Rebalance (settings nd)) \<or> gt rl ll (Settings.Rebalance (settings nd)) then
           bindR (Value n h r) (\<lambda>v.
           bindR (NewRope n h (Some v) (settings nd)) (\<lambda>(h1, rebalancedRope).
           bindR (deref h1 rebalancedRope) (\<lambda>new.
           modify h1 r (\<lambda>_. new))))
         else
           bindR (Rebalance gt n h (left nd)) (\<lambda>h1.
           bindR (field h1 r right) (\<lambda>r1.
           Rebalance gt n h1 r1)))))"

section \<open>Well-formed ropes\<close>

text \<open>
  The settings of the test file, with the ratio as an exact number, and an exact reading
  of the ratio test for the worked examples: for lengths that are not negative it decides
  \<open>a / b > x\<close> as the floating-point test does when no rounding occurs, division by
  zero included.
\<close>

definition testSettings :: "real Settings" where
  "testSettings = \<lparr>SplitLength = 4, JoinLength = 2, Rebalance = 1001 / 1000\<rparr>"

definition ratio_exceeds :: "int \<Rightarrow> int \<Rightarrow> real \<Rightarrow> bool" where
  "ratio_exceeds a b x = (x * real_of_int b < real_of_int a)"

text \<open>The two shapes of a node: a leaf over a buffer, and a split node over two children.\<close>

definition leaf_node :: "'f Settings \<Rightarrow> 'a list \<Rightarrow> ('a, 'f) Rope" where
  "leaf_node cfg xs = \<lparr>value_r = Some xs, length_r = int (length xs),
      left = None, right = None, settings = cfg\<rparr>"

definition split_node :: "'f Settings \<Rightarrow> int \<Rightarrow> ptr \<Rightarrow> ptr \<Rightarrow> ('a, 'f) Rope" where
  "split_node cfg n l r = \<lparr>value_r = None, length_r = n, left = l, right = r, settings = cfg\<rparr>"

text \<open>
  A tree of addresses and buffers describes a rope in the store: \<open>rep cfg h t\<close> holds when
  every node of \<open>t\<close> is stored at its address in \<open>h\<close> with the shape of its kind, the
  settings \<open>cfg\<close>, and a cached length that is the number of elements below it.
\<close>

datatype 'a tree = Leaf nat "'a list" | Node nat "'a tree" "'a tree"

fun root :: "'a tree \<Rightarrow> nat" where
  "root (Leaf a xs) = a"
| "root (Node a l r) = a"

fun flatten :: "'a tree \<Rightarrow> 'a list" where
  "flatten (Leaf a xs) = xs"
| "flatten (Node a l r) = flatten l @ flatten r"

fun addrs :: "'a tree \<Rightarrow> nat list" where
  "addrs (Leaf a xs) = [a]"
| "addrs (Node a l r) = a # addrs l @ addrs r"

fun height :: "'a tree \<Rightarrow> nat" where
  "height (Leaf a xs) = 0"
| "height (Node a l r) = Suc (max (height l) (height r))"

fun rep :: "'f Settings \<Rightarrow> ('a, 'f) heap \<Rightarrow> 'a tree \<Rightarrow> bool" where
  "rep cfg h (Leaf a xs) = (a < length h \<and> h ! a = leaf_node cfg xs)"
| "rep cfg h (Node a l r) =
     (a < length h \<and>
      h ! a = split_node cfg (int (length (flatten l)) + int (length (flatten r)))
                (Some (root l)) (Some (root r)) \<and>
      rep cfg h l \<and> rep cfg h r)"

text \<open>The nodes that a pointer reaches through the child fields.\<close>

inductive reach :: "('a, 'f) heap \<Rightarrow> ptr \<Rightarrow> nat \<Rightarrow> bool" where
  reach_root: "a < length h \<Longrightarrow> reach h (Some a) a"
| reach_left: "reach h p a \<Longrightarrow> left (h ! a) = Some b \<Longrightarrow> reach h p b"
| reach_right: "reach h p a \<Longrightarrow> right (h ! a) = Some b \<Longrightarrow> reach h p b"

text \<open>
  The ropes that the library produces: \<open>produced cfg h r\<close> holds when \<open>r\<close> is, in the
  store \<open>h\<close>, a rope built by \<^verbatim>\<open>NewRope\<close> from a buffer that is not \<^verbatim>\<open>nil\<close>, or derived
  from such a rope by \<^verbatim>\<open>Insert\<close> and \<^verbatim>\<open>Remove\<close>; a rope stays one while further ropes
  are built and derived in the same store.
\<close>

inductive produced :: "'f Settings \<Rightarrow> ('a::zero, 'f) heap \<Rightarrow> ptr \<Rightarrow> bool" for cfg where
  by_NewRope: "NewRope n h0 (Some S) cfg = Inr (h, r) \<Longrightarrow> produced cfg h r"
| by_Insert: "produced cfg h r \<Longrightarrow> Insert n h r i X = Inr (h', r') \<Longrightarrow> produced cfg h' r'"
| by_Remove: "produced cfg h r \<Longrightarrow> Remove n h r s e = Inr (h', r') \<Longrightarrow> produced cfg h' r'"
| after_NewRope:
    "produced cfg h q \<Longrightarrow> NewRope n h (Some S) cfg' = Inr (h', r) \<Longrightarrow> produced cfg h' q"
| after_Insert:
    "produced cfg h q \<Longrightarrow> produced cfg h r \<Longrightarrow> Insert n h r i X = Inr (h', r') \<Longrightarrow>
     produced cfg h' q"
| after_Remove:
    "produced cfg h q \<Longrightarrow> produced cfg h r \<Longrightarrow> Remove n h r s e = Inr (h', r') \<Longrightarrow>
     produced cfg h' q"

subsection \<open>The ropes of the test file\<close>

text \<open>
  The sequence of the tests and the stores that the library builds from it under the test
  settings: the rope of \<^verbatim>\<open>NewRope\<close>, the store after \<^verbatim>\<open>Insert(2, [-1, -2, -3])\<close> and the
  store after \<^verbatim>\<open>Remove(1, 6)\<close>, each with the tree that describes its newest rope; and the
  test settings with a join threshold of 3.
\<close>

definition originalValue :: "int list" where
  "originalValue = [0, 1, 2, 3, 4, 5, 6, 7]"

definition originalRope :: "(int, real) heap" where
  "originalRope =
     [split_node testSettings 8 (Some 1) (Some 2),
      leaf_node testSettings [0, 1, 2, 3],
      leaf_node testSettings [4, 5, 6, 7]]"

definition originalTree :: "int tree" where
  "originalTree = Node 0 (Leaf 1 [0, 1, 2, 3]) (Leaf 2 [4, 5, 6, 7])"

definition insertedRope :: "(int, real) heap" where
  "insertedRope = originalRope @
     [split_node testSettings 11 (Some 4) (Some 2),
      split_node testSettings 7 (Some 5) (Some 6),
      leaf_node testSettings [0, 1, - 1],
      leaf_node testSettings [- 2, - 3, 2, 3]]"

definition insertedTree :: "int tree" where
  "insertedTree = Node 3 (Node 4 (Leaf 5 [0, 1, - 1]) (Leaf 6 [- 2, - 3, 2, 3])) (Leaf 2 [4, 5, 6, 7])"

definition removedRope :: "(int, real) heap" where
  "removedRope = originalRope @
     [split_node testSettings 3 (Some 4) (Some 5),
      leaf_node testSettings [0],
      leaf_node testSettings [6, 7]]"

definition joinSettings :: "real Settings" where
  "joinSettings = \<lparr>SplitLength = 4, JoinLength = 3, Rebalance = 1001 / 1000\<rparr>"

definition joinRope :: "(int, real) heap" where
  "joinRope =
     [split_node joinSettings 8 (Some 1) (Some 2),
      leaf_node joinSettings [0, 1, 2, 3],
      leaf_node joinSettings [4, 5, 6, 7]]"

section \<open>Basic facts\<close>

declare Copy.simps(2) [simp del] NewRope.simps(2) [simp del] adjust.simps(2) [simp del]
  Remove.simps(2) [simp del] Insert.simps(2) [simp del] CopySlice.simps(2) [simp del]
  Rebalance.simps(2) [simp del]

lemma bindR_Inr [simp]: "bindR (Inr x) f = f x"
  by (simp add: bindR_def)

lemma bindR_Inl [simp]: "bindR (Inl e) f = Inl e"
  by (simp add: bindR_def)

lemma bindR_eq_Inr: "bindR m f = Inr y \<longleftrightarrow> (\<exists>x. m = Inr x \<and> f x = Inr y)"
  by (cases m) simp_all

lemma deref_Some [simp]: "a < length h \<Longrightarrow> deref h (Some a) = Inr (h ! a)"
  by (simp add: deref_def)

lemma field_Some [simp]: "a < length h \<Longrightarrow> field h (Some a) f = Inr (f (h ! a))"
  by (simp add: field_def)

lemma modify_Some [simp]: "a < length h \<Longrightarrow> modify h (Some a) f = Inr (h[a := f (h ! a)])"
  by (simp add: modify_def)

lemma deref_eq_Inr: "deref h p = Inr nd \<longleftrightarrow> (\<exists>a. p = Some a \<and> a < length h \<and> nd = h ! a)"
  by (auto simp: deref_def split: option.splits)

lemma field_eq_Inr: "field h p f = Inr x \<longleftrightarrow> (\<exists>a. p = Some a \<and> a < length h \<and> x = f (h ! a))"
  by (auto simp: field_def deref_def split: option.splits)

lemma modify_eq_Inr:
  "modify h p f = Inr h' \<longleftrightarrow> (\<exists>a. p = Some a \<and> a < length h \<and> h' = h[a := f (h ! a)])"
  by (auto simp: modify_def split: option.splits)

lemma sdiv_half [simp]: "int n sdiv 2 = int (n div 2)"
  by (simp add: signed_divide_int_def sgn_if zdiv_int)

lemma elems_Some [simp]: "elems (Some v) = v"
  by (simp add: elems_def)

lemma len_Some [simp]: "len (Some v) = int (length v)"
  by (simp add: len_def)

lemma copy_full [simp]: "length src \<le> length dst \<Longrightarrow> copy dst src = src @ drop (length src) dst"
  by (simp add: copy_def)

lemma length_copy [simp]: "length (copy dst src) = length dst"
  by (simp add: copy_def)

lemma leaf_node_sel [simp]:
  "value_r (leaf_node cfg xs) = Some xs" "length_r (leaf_node cfg xs) = int (length xs)"
  "left (leaf_node cfg xs) = None" "right (leaf_node cfg xs) = None"
  "settings (leaf_node cfg xs) = cfg"
  by (simp_all add: leaf_node_def)

lemma split_node_sel [simp]:
  "value_r (split_node cfg n l r) = None" "length_r (split_node cfg n l r) = n"
  "left (split_node cfg n l r) = l" "right (split_node cfg n l r) = r"
  "settings (split_node cfg n l r) = cfg"
  by (simp_all add: split_node_def)

lemma split_node_upd [simp]:
  "(split_node cfg n l r)\<lparr>left := l'\<rparr> = split_node cfg n l' r"
  "(split_node cfg n l r)\<lparr>right := r'\<rparr> = split_node cfg n l r'"
  "(split_node cfg n l r)\<lparr>length_r := n'\<rparr> = split_node cfg n' l r"
  by (simp_all add: split_node_def)

subsection \<open>Trees in the store\<close>

lemma rep_root_less: "rep cfg h t \<Longrightarrow> root t < length h"
  by (cases t) simp_all

lemma rep_addrs_less: "rep cfg h t \<Longrightarrow> a \<in> set (addrs t) \<Longrightarrow> a < length h"
  by (induction t) auto

lemma rep_append: "rep cfg h t \<Longrightarrow> rep cfg (h @ ext) t"
  by (induction t) (auto simp: nth_append)

lemma rep_update: "rep cfg h t \<Longrightarrow> a \<notin> set (addrs t) \<Longrightarrow> rep cfg (h[a := x]) t"
  by (induction t) auto

lemma rep_length: "rep cfg h t \<Longrightarrow> length_r (h ! root t) = int (length (flatten t))"
  by (cases t) simp_all

lemma root_in_addrs [simp]: "root t \<in> set (addrs t)"
  by (cases t) simp_all

subsection \<open>Copy and Value\<close>

lemma Copy_rep:
  "rep cfg h t \<Longrightarrow> length (flatten t) \<le> length dst \<Longrightarrow> height t < n \<Longrightarrow>
   Copy n h (Some (root t)) dst = Inr (flatten t @ drop (length (flatten t)) dst)"
proof (induction t arbitrary: n dst)
  case (Leaf a xs)
  then obtain m where "n = Suc m" by (cases n) auto
  with Leaf show ?case by (simp add: Copy.simps(2))
next
  case (Node a l r)
  then obtain m where n: "n = Suc m" by (cases n) auto
  let ?d1 = "flatten l @ drop (length (flatten l)) dst"
  have l: "Copy m h (Some (root l)) dst = Inr ?d1"
    using Node.prems n by (intro Node.IH(1)) auto
  have r: "Copy m h (Some (root r)) (drop (length (flatten l)) dst) =
      Inr (flatten r @ drop (length (flatten r)) (drop (length (flatten l)) dst))"
    using Node.prems n by (intro Node.IH(2)) auto
  have rl: "root l < length h" "length_r (h ! root l) = int (length (flatten l))"
    using Node.prems by (auto simp: rep_root_less rep_length)
  show ?case
    using Node.prems n l r rl
    by (simp add: Copy.simps(2) slice_from_def add.commute)
qed

lemma Value_rep:
  "rep cfg h t \<Longrightarrow> height t < n \<Longrightarrow> Value n h (Some (root t)) = Inr (flatten t)"
  using rep_root_less[of cfg h t] rep_length[of cfg h t]
    Copy_rep[of cfg h t "replicate (length (flatten t)) 0" n]
  by (simp add: Value_def make_def)

lemma Copy_length: "Copy n h p dst = Inr d \<Longrightarrow> length d = length dst"
proof (induction n arbitrary: p dst d)
  case 0
  then show ?case by simp
next
  case (Suc n)
  from Suc.prems obtain a where a: "p = Some a" "a < length h"
    by (auto simp: Copy.simps(2) bindR_eq_Inr deref_eq_Inr)
  show ?case
  proof (cases "value_r (h ! a)")
    case (Some v)
    with Suc.prems a show ?thesis by (auto simp: Copy.simps(2))
  next
    case None
    with Suc.prems a obtain d1 ll d2 where
      d1: "Copy n h (left (h ! a)) dst = Inr d1" and
      ll: "0 \<le> ll" "ll \<le> int (length d1)" and
      d2: "Copy n h (right (h ! a)) (drop (nat ll) d1) = Inr d2" and
      d: "d = take (nat ll) d1 @ d2"
      by (auto simp: Copy.simps(2) bindR_eq_Inr slice_from_def split: if_splits)
    from Suc.IH[OF d1] Suc.IH[OF d2] ll d show ?thesis by auto
  qed
qed

subsection \<open>NewRope\<close>

lemma NewRope_Suc:
  "NewRope (Suc n) h (Some xs) cfg =
     bindR (adjust n (h @ [leaf_node cfg xs]) (Some (length h))) (\<lambda>h2. Inr (h2, Some (length h)))"
  by (simp add: alloc_def leaf_node_def NewRope.simps(2))

lemma adjust_leaf_short:
  "\<not> SplitLength cfg < int (length xs) \<Longrightarrow>
   adjust (Suc n) (h @ [leaf_node cfg xs]) (Some (length h)) = Inr (h @ [leaf_node cfg xs])"
  by (simp add: adjust.simps(2))

lemma adjust_leaf_long:
  "SplitLength cfg < int (length xs) \<Longrightarrow>
   adjust (Suc n) (h @ [leaf_node cfg xs]) (Some (length h)) =
     bindR (NewRope n (h @ [leaf_node cfg xs]) (Some (take (length xs div 2) xs)) cfg) (\<lambda>(h1, l).
     bindR (modify h1 (Some (length h)) (\<lambda>x. x\<lparr>left := l\<rparr>)) (\<lambda>h2.
     bindR (deref h2 (Some (length h))) (\<lambda>nd2.
     bindR (slice_from (elems (value_r nd2)) (length_r nd2 sdiv 2)) (\<lambda>v2.
     bindR (NewRope n h2 (Some v2) (settings nd2)) (\<lambda>(h3, rr).
     bindR (modify h3 (Some (length h)) (\<lambda>x. x\<lparr>right := rr\<rparr>)) (\<lambda>h4.
     modify h4 (Some (length h)) (\<lambda>x. x\<lparr>value_r := None\<rparr>)))))))"
  by (simp add: slice_to_def adjust.simps(2))

lemma NewRope_sound:
  "NewRope n h (Some xs) cfg = Inr (h', p) \<Longrightarrow>
   \<exists>t ext. h' = h @ ext \<and> p = Some (length h) \<and> rep cfg h' t \<and> root t = length h \<and>
     flatten t = xs \<and> distinct (addrs t) \<and> (\<forall>a \<in> set (addrs t). length h \<le> a)"
proof (induction n arbitrary: h xs h' p rule: less_induct)
  case (less n)
  let ?a = "length h"
  let ?h1 = "h @ [leaf_node cfg xs]"
  from less.prems obtain m where n: "n = Suc (Suc m)"
    by (cases n; cases "n - 1") (auto simp: NewRope_Suc)
  from less.prems n have adj: "adjust (Suc m) ?h1 (Some ?a) = Inr h'" and p: "p = Some ?a"
    by (auto simp: NewRope_Suc bindR_eq_Inr)
  show ?case
  proof (cases "SplitLength cfg < int (length xs)")
    case False
    with adj have "h' = ?h1" by (simp add: adjust_leaf_short)
    then have "rep cfg h' (Leaf ?a xs)" by simp
    with \<open>h' = ?h1\<close> p show ?thesis
      by (intro exI[of _ "Leaf ?a xs"] exI[of _ "[leaf_node cfg xs]"]) simp
  next
    case True
    let ?k = "length xs div 2"
    from adj True obtain h2 l where
      l: "NewRope m ?h1 (Some (take ?k xs)) cfg = Inr (h2, l)"
      by (auto simp: adjust_leaf_long bindR_eq_Inr)
    from less.IH[OF _ l] n obtain tl e1 where tl:
      "h2 = ?h1 @ e1" "l = Some (length ?h1)" "rep cfg h2 tl" "root tl = length ?h1"
      "flatten tl = take ?k xs" "distinct (addrs tl)" "\<forall>a \<in> set (addrs tl). length ?h1 \<le> a"
      by auto
    let ?nd1 = "(leaf_node cfg xs)\<lparr>left := l\<rparr>"
    let ?h2' = "h2[?a := ?nd1]"
    have h2a: "h2 ! ?a = leaf_node cfg xs" "?a < length h2"
      using tl(1) by (simp_all add: nth_append)
    from adj True l h2a obtain h3 rr where
      r: "NewRope m ?h2' (Some (drop ?k xs)) cfg = Inr (h3, rr)"
      and h': "h' = h3[?a := (h3 ! ?a)\<lparr>right := rr, value_r := None\<rparr>]"
      by (auto simp: adjust_leaf_long bindR_eq_Inr slice_from_def modify_eq_Inr
          split: if_splits)
    from less.IH[OF _ r] n obtain tr e2 where tr:
      "h3 = ?h2' @ e2" "rr = Some (length ?h2')" "rep cfg h3 tr" "root tr = length ?h2'"
      "flatten tr = drop ?k xs" "distinct (addrs tr)" "\<forall>a \<in> set (addrs tr). length ?h2' \<le> a"
      by auto
    have h3a: "h3 ! ?a = ?nd1" "?a < length h3"
      using tr(1) h2a by (simp_all add: nth_append)
    let ?nd = "split_node cfg (int (length xs)) l rr :: ('a, 'b) Rope"
    have h'2: "h' = h3[?a := ?nd]"
      using h' h3a by (simp add: leaf_node_def split_node_def)
    have notin: "?a \<notin> set (addrs tl)" "?a \<notin> set (addrs tr)"
      using tl(7) tr(7) h2a by auto
    have rep_l: "rep cfg h' tl"
      unfolding h'2 tr(1) using tl(3) notin
      by (intro rep_update rep_append) auto
    have rep_r: "rep cfg h' tr"
      unfolding h'2 using tr(3) notin by (intro rep_update) auto
    have lens: "int (length xs) = int (length (take ?k xs)) + int (length (drop ?k xs))"
      by simp
    have disj: "set (addrs tl) \<inter> set (addrs tr) = {}"
    proof -
      have "\<forall>a \<in> set (addrs tl). a < length h2"
        using rep_addrs_less[OF tl(3)] by blast
      with tr(7) show ?thesis by fastforce
    qed
    have rep_t: "rep cfg h' (Node ?a tl tr)"
      using rep_l rep_r h3a(2) tl(2,4,5) tr(2,4,5) lens
      by (simp add: h'2 del: length_take length_drop)
    have ext: "h' = h @ (leaf_node cfg xs # e1 @ e2)[0 := ?nd]"
      unfolding h'2 tr(1) tl(1) by (simp add: list_update_append)
    have fl: "flatten (Node ?a tl tr) = xs"
      by (simp add: tl(5) tr(5))
    have low: "\<forall>a \<in> set (addrs (Node ?a tl tr)). ?a \<le> a"
      using tl(7) tr(7) h2a(2) by auto
    have dist: "distinct (addrs (Node ?a tl tr))"
      using tl(6) tr(6) disj notin by simp
    show ?thesis
      using rep_t ext p fl low dist
      by (intro exI[of _ "Node ?a tl tr"] exI[of _ "(leaf_node cfg xs # e1 @ e2)[0 := ?nd]"])
        (simp del: flatten.simps addrs.simps rep.simps)
  qed
qed

lemma NewRope_returns:
  "1 \<le> SplitLength cfg \<Longrightarrow> 2 * length xs + 2 \<le> n \<Longrightarrow>
   \<exists>res. NewRope n h (Some xs) cfg = Inr res"
proof (induction "length xs" arbitrary: xs n h rule: less_induct)
  case less
  let ?a = "length h"
  let ?h1 = "h @ [leaf_node cfg xs]"
  from less.prems obtain m where n: "n = Suc (Suc m)"
    by (cases n; cases "n - 1") auto
  show ?case
  proof (cases "SplitLength cfg < int (length xs)")
    case False
    then show ?thesis by (simp add: n NewRope_Suc adjust_leaf_short)
  next
    case True
    let ?k = "length xs div 2"
    from True less.prems(1) have len2: "2 \<le> length xs" by linarith
    then have k: "?k < length xs" "0 < ?k" by auto
    have "\<exists>res. NewRope m ?h1 (Some (take ?k xs)) cfg = Inr res"
      using less.prems n k by (intro less.hyps) auto
    then obtain h2 l where l: "NewRope m ?h1 (Some (take ?k xs)) cfg = Inr (h2, l)"
      by auto
    from NewRope_sound[OF l] obtain e1 where h2: "h2 = ?h1 @ e1" by auto
    let ?h2' = "h2[?a := (leaf_node cfg xs)\<lparr>left := l\<rparr>]"
    have "\<exists>res. NewRope m ?h2' (Some (drop ?k xs)) cfg = Inr res"
      using less.prems n k by (intro less.hyps) auto
    then obtain h3 rr where r: "NewRope m ?h2' (Some (drop ?k xs)) cfg = Inr (h3, rr)"
      by auto
    from NewRope_sound[OF r] obtain e2 where h3: "h3 = ?h2' @ e2" by auto
    have "?a < length h2" "?a < length h3" "h2 ! ?a = leaf_node cfg xs"
      using h2 h3 by (simp_all add: nth_append)
    with True l r show ?thesis
      by (simp add: n NewRope_Suc adjust_leaf_long slice_from_def)
  qed
qed

lemma NewRope_total:
  assumes "1 \<le> SplitLength cfg" "2 * length xs + 2 \<le> n"
  shows "\<exists>t ext. NewRope n h (Some xs) cfg = Inr (h @ ext, Some (length h)) \<and>
     rep cfg (h @ ext) t \<and> root t = length h \<and> flatten t = xs \<and> distinct (addrs t) \<and>
     (\<forall>a \<in> set (addrs t). length h \<le> a)"
proof -
  from NewRope_returns[OF assms] obtain h' p where r: "NewRope n h (Some xs) cfg = Inr (h', p)"
    by fastforce
  from NewRope_sound[OF r] r show ?thesis by auto
qed

lemma NewRope_nil: "NewRope (n + 3) h None cfg \<noteq> Inl OutOfFuel"
proof -
  have e: "n + 3 = Suc (Suc (Suc n))" by simp
  show ?thesis unfolding e
    by (simp add: NewRope.simps(2) adjust.simps(2) Copy.simps(2) alloc_def len_def make_def
        elems_def deref_def field_def)
qed

lemma NewRope_leaf:
  fixes h :: "('a::zero, 'f) heap"
  assumes "\<not> SplitLength cfg < int (length xs)" "NewRope n h (Some xs) cfg = Inr (h', p)"
  shows "h' = h @ [leaf_node cfg xs] \<and> p = Some (length h)"
proof -
  from assms(2) obtain m where n: "n = Suc (Suc m)"
    by (cases n; cases "n - 1") (auto simp: NewRope_Suc)
  with assms show ?thesis by (simp add: NewRope_Suc adjust_leaf_short)
qed

lemma NewRope_short:
  fixes h :: "('a::zero, 'f) heap"
  assumes "\<not> SplitLength cfg < int (length xs)"
  shows "NewRope n h (Some xs) cfg =
    (if 2 \<le> n then Inr (h @ [leaf_node cfg xs], Some (length h)) else Inl OutOfFuel)"
proof (cases n)
  case 0
  then show ?thesis by simp
next
  case (Suc n1)
  with assms show ?thesis
    by (cases n1) (simp_all add: NewRope_Suc adjust_leaf_short)
qed

lemma NewRope_diverges:
  fixes h :: "('a::zero, 'f) heap"
  shows "SplitLength cfg < int (length xs) \<Longrightarrow> SplitLength cfg \<le> 0 \<Longrightarrow>
    NewRope n h (Some xs) cfg = Inl OutOfFuel"
proof (induction n arbitrary: h xs rule: less_induct)
  case (less n)
  show ?case
  proof (cases n)
    case 0
    then show ?thesis by simp
  next
    case (Suc n1)
    show ?thesis
    proof (cases n1)
      case 0
      with Suc show ?thesis by (simp add: NewRope_Suc)
    next
      case (Suc m)
      let ?a = "length h"
      let ?h1 = "h @ [leaf_node cfg xs]"
      let ?k = "length xs div 2"
      have n: "n = Suc (Suc m)" using \<open>n = Suc n1\<close> Suc by simp
      have right: "NewRope m g (Some (drop ?k xs)) cfg = Inl OutOfFuel" for g :: "('a, 'f) heap"
      proof -
        have "length xs = 0 \<or> length xs div 2 < length xs" by linarith
        then have "SplitLength cfg < int (length (drop ?k xs))"
          using less.prems by auto
        with less.IH[of m "drop ?k xs" g] less.prems(2) n show ?thesis by simp
      qed
      show ?thesis
      proof (cases "NewRope m ?h1 (Some (take ?k xs)) cfg")
        case (Inl e)
        have "e = OutOfFuel"
        proof (cases "SplitLength cfg < int (length (take ?k xs))")
          case True
          with less.IH[of m "take ?k xs" ?h1] less.prems(2) n Inl show ?thesis by simp
        next
          case False
          from NewRope_short[OF this, of m ?h1] Inl show ?thesis
            by (simp split: if_splits)
        qed
        with Inl less.prems(1) show ?thesis
          by (simp add: n NewRope_Suc adjust_leaf_long)
      next
        case (Inr res)
        obtain h2 l where res: "res = (h2, l)" by (cases res)
        from NewRope_sound[OF Inr[unfolded res]] obtain e1 where h2: "h2 = ?h1 @ e1" by blast
        have "?a < length h2" "h2 ! ?a = leaf_node cfg xs"
          using h2 by (simp_all add: nth_append)
        with Inr res less.prems(1) right show ?thesis
          by (simp add: n NewRope_Suc adjust_leaf_long slice_from_def)
      qed
    qed
  qed
qed

lemma rep_leaf_height: "rep cfg h t \<Longrightarrow> value_r (h ! root t) \<noteq> None \<Longrightarrow> height t = 0"
  by (cases t) simp_all

lemma NewRope_flat:
  fixes h :: "('a::zero, 'f) heap"
  assumes "NewRope n h (Some xs) cfg = Inr (h', p)" "SplitLength cfg \<le> 0"
    "rep cfg h' t" "p = Some (root t)"
  shows "height t = 0"
proof -
  have "\<not> SplitLength cfg < int (length xs)"
    using NewRope_diverges[of cfg xs n h] assms(1,2) by auto
  from NewRope_leaf[OF this assms(1)] assms(4) have "value_r (h' ! root t) \<noteq> None"
    by simp
  with assms(3) show ?thesis by (rule rep_leaf_height)
qed

subsection \<open>Insert\<close>

lemma copy_at_append:
  "length src \<le> length rest \<Longrightarrow>
   copy_at (pre @ rest) (int (length pre)) src = Inr (pre @ src @ drop (length src) rest)"
  by (simp add: copy_at_def slice_from_def)

lemma Insert_buffer:
  fixes xs :: "'a::zero list"
  assumes "k \<le> length xs"
  shows "bindR (copy_at (copy (replicate (length xs + length X) 0) (take k xs)) (int k) X)
           (\<lambda>newValue1. copy_at newValue1 (int k + int (length X)) (drop k xs)) =
         Inr (take k xs @ X @ drop k xs)"
proof -
  let ?z = "replicate (length xs - k) (0::'a)"
  have a: "copy (replicate (length xs + length X) 0) (take k xs) =
      take k xs @ replicate (length X + (length xs - k)) 0"
    using assms by (simp add: min_absorb2)
  have b: "copy_at (take k xs @ replicate (length X + (length xs - k)) 0) (int k) X =
      Inr (take k xs @ X @ ?z)"
    using copy_at_append[of X "replicate (length X + (length xs - k)) (0::'a)" "take k xs"] assms
    by (simp add: min_absorb2)
  have c: "copy_at (take k xs @ X @ ?z) (int k + int (length X)) (drop k xs) =
      Inr (take k xs @ X @ drop k xs)"
    using copy_at_append[of "drop k xs" ?z "take k xs @ X"] assms
    by (simp add: min_absorb2)
  show ?thesis by (simp only: a b c bindR_Inr)
qed

lemma Insert_leaf:
  fixes h :: "('a::zero, 'f) heap"
  assumes "a < length h" "h ! a = leaf_node cfg xs"
  shows "Insert (Suc m) h (Some a) i X =
    (if 0 \<le> i \<and> i \<le> int (length xs)
     then NewRope m h (Some (take (nat i) xs @ X @ drop (nat i) xs)) cfg else Inl Panic)"
proof (cases "0 \<le> i \<and> i \<le> int (length xs)")
  case False
  with assms show ?thesis
    by (auto simp: Insert.simps(2) make_def slice_to_def)
next
  case True
  then obtain k where k: "i = int k" "k \<le> length xs"
    by (metis nat_0_le nat_le_iff)
  have "Insert (Suc m) h (Some a) i X =
      bindR (bindR (copy_at (copy (replicate (length xs + length X) 0) (take k xs)) (int k) X)
           (\<lambda>newValue1. copy_at newValue1 (int k + int (length X)) (drop k xs)))
        (\<lambda>newValue2. NewRope m h (Some newValue2) cfg)"
    using assms k
    by (simp add: Insert.simps(2) make_def slice_to_def slice_from_def bindR_def nat_add_distrib
        split: sum.splits)
  also have "\<dots> = NewRope m h (Some (take k xs @ X @ drop k xs)) cfg"
    by (simp only: Insert_buffer[OF k(2)] bindR_Inr)
  finally show ?thesis using k by simp
qed

lemma Insert_node:
  fixes h :: "('a::zero, 'f) heap"
  assumes "a < length h" "h ! a = split_node cfg n (Some pl) (Some pr)" "pl < length h"
  shows "Insert (Suc m) h (Some a) i X =
    (if i < length_r (h ! pl) then
       bindR (Insert m (h @ [split_node cfg (n + int (length X)) (Some pl) (Some pr)])
                (Some pl) i X) (\<lambda>(h2, l').
       bindR (modify h2 (Some (length h)) (\<lambda>x. x\<lparr>left := l'\<rparr>)) (\<lambda>h3.
       Inr (h3, Some (length h))))
     else
       bindR (Insert m (h @ [split_node cfg (n + int (length X)) (Some pl) (Some pr)])
                (Some pr) (i - length_r (h ! pl)) X) (\<lambda>(h2, r').
       bindR (modify h2 (Some (length h)) (\<lambda>x. x\<lparr>right := r'\<rparr>)) (\<lambda>h3.
       Inr (h3, Some (length h)))))"
  using assms by (simp add: Insert.simps(2) alloc_def nth_append split_node_def)

lemma Insert_sound:
  fixes h :: "('a::zero, 'f) heap"
  shows "rep cfg h t \<Longrightarrow> Insert n h (Some (root t)) i X = Inr (h', p') \<Longrightarrow>
   \<exists>t' ext. h' = h @ ext \<and> p' = Some (root t') \<and> rep cfg h' t' \<and>
     flatten t' = take (nat i) (flatten t) @ X @ drop (nat i) (flatten t) \<and>
     0 \<le> i \<and> i \<le> int (length (flatten t)) \<and>
     set (addrs t') \<subseteq> set (addrs t) \<union> {length h..<length h'} \<and>
     (distinct (addrs t) \<longrightarrow> distinct (addrs t'))"
proof (induction t arbitrary: n h h' p' i)
  case (Leaf a xs)
  from Leaf.prems obtain m where n: "n = Suc m" by (cases n) auto
  from Leaf.prems n have i: "0 \<le> i" "i \<le> int (length xs)" and
    new: "NewRope m h (Some (take (nat i) xs @ X @ drop (nat i) xs)) cfg = Inr (h', p')"
    by (auto simp: Insert_leaf split: if_splits)
  from NewRope_sound[OF new] obtain t' ext where t':
    "h' = h @ ext" "p' = Some (length h)" "rep cfg h' t'" "root t' = length h"
    "flatten t' = take (nat i) xs @ X @ drop (nat i) xs" "distinct (addrs t')"
    "\<forall>a \<in> set (addrs t'). length h \<le> a"
    by blast
  have "set (addrs t') \<subseteq> {length h..<length h'}"
    using t'(7) rep_addrs_less[OF t'(3)] by auto
  with t' i show ?case
    by (intro exI[of _ t'] exI[of _ ext]) auto
next
  case (Node a l r)
  from Node.prems obtain m where n: "n = Suc m" by (cases n) auto
  let ?len = "int (length (flatten l)) + int (length (flatten r))"
  let ?c = "split_node cfg (?len + int (length X)) (Some (root l)) (Some (root r)) :: ('a, 'f) Rope"
  let ?h1 = "h @ [?c]"
  let ?b = "length h"
  from Node.prems have a: "a < length h"
    "h ! a = split_node cfg ?len (Some (root l)) (Some (root r))"
    and rl: "rep cfg h l" and rr: "rep cfg h r" by auto
  have pl: "root l < length h" "length_r (h ! root l) = int (length (flatten l))"
    using rl by (auto simp: rep_root_less rep_length)
  have r1: "rep cfg ?h1 l" "rep cfg ?h1 r"
    using rl rr by (auto intro: rep_append)
  have old: "x < ?b" if "x \<in> set (addrs l) \<or> x \<in> set (addrs r)" for x
    using that rep_addrs_less[OF rl] rep_addrs_less[OF rr] by auto
  show ?case
  proof (cases "i < int (length (flatten l))")
    case True
    with Node.prems(2) n a pl obtain h2 l' where
      rec: "Insert m ?h1 (Some (root l)) i X = Inr (h2, l')" and
      h': "h' = h2[?b := (h2 ! ?b)\<lparr>left := l'\<rparr>]" "?b < length h2" and p': "p' = Some ?b"
      by (auto simp: Insert_node[OF a pl(1)] bindR_eq_Inr modify_eq_Inr)
    from Node.IH(1)[OF r1(1) rec] obtain tl e where tl:
      "h2 = ?h1 @ e" "l' = Some (root tl)" "rep cfg h2 tl"
      "flatten tl = take (nat i) (flatten l) @ X @ drop (nat i) (flatten l)"
      "0 \<le> i" "i \<le> int (length (flatten l))"
      "set (addrs tl) \<subseteq> set (addrs l) \<union> {length ?h1..<length h2}"
      "distinct (addrs l) \<longrightarrow> distinct (addrs tl)"
      by blast
    let ?c' = "split_node cfg (?len + int (length X)) (Some (root tl)) (Some (root r)) :: ('a, 'f) Rope"
    have h'2: "h' = h2[?b := ?c']"
      using h' tl(1,2) by (simp add: nth_append)
    have nb: "?b \<notin> set (addrs tl)" "?b \<notin> set (addrs r)"
      using tl(7) old[of ?b] by auto
    have "rep cfg h2 r"
      unfolding tl(1) using r1(2) by (rule rep_append)
    then have reps: "rep cfg h' tl" "rep cfg h' r"
      unfolding h'2 using tl(3) nb by (auto intro: rep_update)
    have "rep cfg h' (Node ?b tl r)"
      using reps h'(2) tl(4,5,6) by (simp add: h'2)
    moreover have "h' = h @ (?c # e)[0 := ?c']"
      unfolding h'2 tl(1) by (simp add: list_update_append)
    moreover have "flatten (Node ?b tl r) =
        take (nat i) (flatten (Node a l r)) @ X @ drop (nat i) (flatten (Node a l r))"
      using tl(4,5,6) by simp
    moreover have "set (addrs (Node ?b tl r)) \<subseteq> set (addrs (Node a l r)) \<union> {?b..<length h'}"
      using tl(7) h'(2) by (auto simp: h'2)
    moreover have "distinct (addrs (Node a l r)) \<longrightarrow> distinct (addrs (Node ?b tl r))"
    proof
      assume d: "distinct (addrs (Node a l r))"
      have "x \<notin> set (addrs r)" if "x \<in> set (addrs tl)" for x
      proof (cases "x \<in> set (addrs l)")
        case True
        with d show ?thesis by auto
      next
        case False
        with that tl(7) have "?b < x" by auto
        with old[of x] show ?thesis by auto
      qed
      then have "set (addrs tl) \<inter> set (addrs r) = {}" by auto
      with d tl(8) nb show "distinct (addrs (Node ?b tl r))" by simp
    qed
    moreover have "0 \<le> i" "i \<le> int (length (flatten (Node a l r)))"
      using tl(5,6) by auto
    ultimately show ?thesis
      using p' by (intro exI[of _ "Node ?b tl r"] exI[of _ "(?c # e)[0 := ?c']"])
        (simp del: flatten.simps addrs.simps rep.simps)
  next
    case False
    let ?j = "i - int (length (flatten l))"
    from False Node.prems(2) n a pl obtain h2 r' where
      rec: "Insert m ?h1 (Some (root r)) ?j X = Inr (h2, r')" and
      h': "h' = h2[?b := (h2 ! ?b)\<lparr>right := r'\<rparr>]" "?b < length h2" and p': "p' = Some ?b"
      by (auto simp: Insert_node[OF a pl(1)] bindR_eq_Inr modify_eq_Inr)
    from Node.IH(2)[OF r1(2) rec] obtain tr e where tr:
      "h2 = ?h1 @ e" "r' = Some (root tr)" "rep cfg h2 tr"
      "flatten tr = take (nat ?j) (flatten r) @ X @ drop (nat ?j) (flatten r)"
      "0 \<le> ?j" "?j \<le> int (length (flatten r))"
      "set (addrs tr) \<subseteq> set (addrs r) \<union> {length ?h1..<length h2}"
      "distinct (addrs r) \<longrightarrow> distinct (addrs tr)"
      by blast
    let ?c' = "split_node cfg (?len + int (length X)) (Some (root l)) (Some (root tr)) :: ('a, 'f) Rope"
    have h'2: "h' = h2[?b := ?c']"
      using h' tr(1,2) by (simp add: nth_append)
    have nb: "?b \<notin> set (addrs tr)" "?b \<notin> set (addrs l)"
      using tr(7) old[of ?b] by auto
    have "rep cfg h2 l"
      unfolding tr(1) using r1(1) by (rule rep_append)
    then have reps: "rep cfg h' tr" "rep cfg h' l"
      unfolding h'2 using tr(3) nb by (auto intro: rep_update)
    have nj: "nat ?j = nat i - length (flatten l)" using tr(5) by linarith
    have "rep cfg h' (Node ?b l tr)"
      using reps h'(2) tr(4,5,6) by (simp add: h'2)
    moreover have "h' = h @ (?c # e)[0 := ?c']"
      unfolding h'2 tr(1) by (simp add: list_update_append)
    moreover have "flatten (Node ?b l tr) =
        take (nat i) (flatten (Node a l r)) @ X @ drop (nat i) (flatten (Node a l r))"
      using tr(4,5,6) nj by simp
    moreover have "set (addrs (Node ?b l tr)) \<subseteq> set (addrs (Node a l r)) \<union> {?b..<length h'}"
      using tr(7) h'(2) by (auto simp: h'2)
    moreover have "distinct (addrs (Node a l r)) \<longrightarrow> distinct (addrs (Node ?b l tr))"
    proof
      assume d: "distinct (addrs (Node a l r))"
      have "x \<notin> set (addrs l)" if "x \<in> set (addrs tr)" for x
      proof (cases "x \<in> set (addrs r)")
        case True
        with d show ?thesis by auto
      next
        case False
        with that tr(7) have "?b < x" by auto
        with old[of x] show ?thesis by auto
      qed
      then have "set (addrs l) \<inter> set (addrs tr) = {}" by auto
      with d tr(8) nb show "distinct (addrs (Node ?b l tr))" by simp
    qed
    moreover have "0 \<le> i" "i \<le> int (length (flatten (Node a l r)))"
      using tr(5,6) by auto
    ultimately show ?thesis
      using p' by (intro exI[of _ "Node ?b l tr"] exI[of _ "(?c # e)[0 := ?c']"])
        (simp del: flatten.simps addrs.simps rep.simps)
  qed
qed




subsection \<open>CopySlice\<close>

lemma bound_left: "bound (int i) (int j) (int L) = (int (min i L), int (min j L))"
  by (auto simp: bound_def min_def)

lemma bound_right:
  "bound (int i - int L) (int j - int L) (int R) = (int (min (i - L) R), int (min (j - L) R))"
  by (auto simp: bound_def min_def)

lemma slice_from_append: "length p = k \<Longrightarrow> slice_from (p @ q) (int k) = Inr q"
  by (simp add: slice_from_def)

lemma CopySlice_leaf:
  assumes "a < length h" "h ! a = leaf_node cfg xs"
  shows "CopySlice (Suc m) h (Some a) dst s e =
    (if s = e then Inr dst else bindR (slice xs s e) (\<lambda>v. Inr (copy dst v)))"
  using assms by (simp add: CopySlice.simps(2))

lemma CopySlice_node:
  assumes "a < length h" "h ! a = split_node cfg n (Some pl) (Some pr)"
    "pl < length h" "pr < length h"
  shows "CopySlice (Suc m) h (Some a) dst s e =
    (if s = e then Inr dst
     else
       let ll = length_r (h ! pl); (leftStart, leftEnd) = bound s e ll in
       bindR (CopySlice m h (Some pl) dst leftStart leftEnd) (\<lambda>d1.
       let (rightStart, rightEnd) = bound (s - ll) (e - ll) (length_r (h ! pr)) in
       bindR (slice_from d1 (leftEnd - leftStart)) (\<lambda>sub.
       bindR (CopySlice m h (Some pr) sub rightStart rightEnd) (\<lambda>d2.
       Inr (take (nat (leftEnd - leftStart)) d1 @ d2)))))"
  using assms by (simp add: CopySlice.simps(2) Let_def)

lemma CopySlice_rep:
  "rep cfg h t \<Longrightarrow> i \<le> j \<Longrightarrow> j \<le> length (flatten t) \<Longrightarrow> j - i \<le> length dst \<Longrightarrow>
   height t < n \<Longrightarrow>
   CopySlice n h (Some (root t)) dst (int i) (int j) =
     Inr (take (j - i) (drop i (flatten t)) @ drop (j - i) dst)"
proof (induction t arbitrary: n dst i j)
  case (Leaf a xs)
  from Leaf.prems obtain m where n: "n = Suc m" by (cases n) auto
  from Leaf.prems n show ?case
    by (simp add: CopySlice_leaf slice_def nat_diff_distrib' min_absorb2)
next
  case (Node a l r)
  from Node.prems obtain m where n: "n = Suc m" by (cases n) auto
  let ?L = "length (flatten l)" and ?R = "length (flatten r)"
  from Node.prems have a: "a < length h"
    "h ! a = split_node cfg (int ?L + int ?R) (Some (root l)) (Some (root r))"
    and rl: "rep cfg h l" and rr: "rep cfg h r" by auto
  have pl: "root l < length h" "length_r (h ! root l) = int ?L"
    using rl by (auto simp: rep_root_less rep_length)
  have pr: "root r < length h" "length_r (h ! root r) = int ?R"
    using rr by (auto simp: rep_root_less rep_length)
  let ?i1 = "min i ?L" and ?j1 = "min j ?L" and ?i2 = "i - ?L" and ?j2 = "j - ?L"
  let ?d1 = "take (?j1 - ?i1) (drop ?i1 (flatten l)) @ drop (?j1 - ?i1) dst"
  let ?sub = "drop (?j1 - ?i1) dst"
  let ?d2 = "take (?j2 - ?i2) (drop ?i2 (flatten r)) @ drop (?j2 - ?i2) ?sub"
  have j2: "?j2 \<le> ?R" "?i2 \<le> ?R" using Node.prems by auto
  have l: "CopySlice m h (Some (root l)) dst (int ?i1) (int ?j1) = Inr ?d1"
    using Node.prems n by (intro Node.IH(1)[OF rl]) auto
  have r: "CopySlice m h (Some (root r)) ?sub (int ?i2) (int ?j2) = Inr ?d2"
    using Node.prems n by (intro Node.IH(2)[OF rr]) auto
  have len1: "length (take (?j1 - ?i1) (drop ?i1 (flatten l))) = ?j1 - ?i1"
    by auto
  have ar: "?i1 \<le> ?j1" "?j1 - ?i1 \<le> length dst" "?i1 \<le> j"
    using Node.prems(2,3,4) by (auto simp: min_def)
  have e: "int ?j1 - int ?i1 = int (?j1 - ?i1)"
    using ar(1) by (simp add: of_nat_diff)
  have sub: "slice_from ?d1 (int ?j1 - int ?i1) = Inr ?sub"
    unfolding e by (rule slice_from_append[OF len1])
  have tk: "take (nat (int ?j1 - int ?i1)) ?d1 = take (?j1 - ?i1) (drop ?i1 (flatten l))"
    unfolding e nat_int using len1 by (simp del: length_take length_drop)
  have res: "CopySlice n h (Some a) dst (int i) (int j) =
      (if i = j then Inr dst else Inr (take (?j1 - ?i1) (drop ?i1 (flatten l)) @ ?d2))"
    unfolding n CopySlice_node[OF a pl(1) pr(1)] pl(2) pr(2) Let_def bound_left bound_right
    using j2 l r sub tk by (simp add: min_absorb1 del: length_take length_drop)
  have "take (?j1 - ?i1) (drop ?i1 (flatten l)) @ ?d2 =
      take (j - i) (drop i (flatten l @ flatten r)) @ drop (j - i) dst"
    using Node.prems(2,3,4) by (auto simp: min_def)
  with res Node.prems(2) show ?case by auto
qed

subsection \<open>The join of adjust\<close>

lemma adjust_node_keep:
  fixes h :: "('a::zero, 'f) heap"
  assumes "b < length h" "h ! b = split_node cfg n pl pr" "\<not> n < JoinLength cfg"
  shows "adjust (Suc k) h (Some b) = Inr h"
  using assms by (simp add: adjust.simps(2))

lemma adjust_node_join:
  fixes h :: "('a::zero, 'f) heap"
  assumes "b < length h" "h ! b = split_node cfg n pl pr" "n < JoinLength cfg"
    and "adjust (Suc k) h (Some b) = Inr h'"
  shows "\<exists>buf. int (length buf) = n \<and> h' = h[b := leaf_node cfg buf]"
proof -
  from assms have n0: "0 \<le> n"
    by (auto simp: adjust.simps(2) bindR_eq_Inr make_def split: if_splits)
  let ?buf = "replicate (nat n) (0::'a)"
  from assms n0 obtain d1 where
    d1: "Copy k (h[b := (split_node cfg n pl pr)\<lparr>value_r := Some ?buf\<rparr>]) pl ?buf = Inr d1"
    by (auto simp: adjust.simps(2) bindR_eq_Inr make_def)
  from Copy_length[OF d1] have ld1: "length d1 = nat n" by simp
  from assms n0 d1 obtain ll d2 where
    ll: "0 \<le> ll" "ll \<le> int (length d1)" and
    d2: "Copy k (h[b := (split_node cfg n pl pr)\<lparr>value_r := Some d1\<rparr>]) pr (take (nat ll) d1) = Inr d2"
    and h': "h' = h[b := (split_node cfg n pl pr)\<lparr>value_r := Some (d2 @ drop (nat ll) d1),
                left := None, right := None\<rparr>]"
    by (auto simp: adjust.simps(2) bindR_eq_Inr make_def slice_to_def split: if_splits)
  from Copy_length[OF d2] ll have ld2: "length d2 = nat ll" by simp
  have "int (length (d2 @ drop (nat ll) d1)) = n"
    using ld1 ld2 ll n0 by simp
  moreover from this have "(split_node cfg n pl pr)\<lparr>value_r := Some (d2 @ drop (nat ll) d1),
                left := None, right := None\<rparr> = leaf_node cfg (d2 @ drop (nat ll) d1)"
    by (simp add: split_node_def leaf_node_def)
  ultimately show ?thesis using h' by metis
qed

subsection \<open>Remove\<close>

lemma Remove_same: "Remove (Suc n) h r x x = Inr (h, r)"
  by (simp add: Remove.simps(2))

lemma Remove_leaf:
  fixes h :: "('a::zero, 'f) heap"
  assumes "a < length h" "h ! a = leaf_node cfg xs" "s \<noteq> e"
  shows "Remove (Suc m) h (Some a) s e =
     bindR (make (int (length xs) - (e - s))) (\<lambda>newValue.
     bindR (slice_to xs s) (\<lambda>s1.
     bindR (slice_from xs e) (\<lambda>s2.
     bindR (copy_at (copy newValue s1) s s2) (\<lambda>newValue'.
     NewRope m h (Some newValue') cfg))))"
  using assms by (simp add: Remove.simps(2))

lemma Remove_node:
  fixes h :: "('a::zero, 'f) heap"
  assumes "a < length h" "h ! a = split_node cfg n (Some pl) (Some pr)" "pl < length h" "s \<noteq> e"
  shows "Remove (Suc m) h (Some a) s e =
     bindR (Remove m (h @ [split_node cfg 0 None None]) (Some pl)
              (fst (bound s e (length_r (h ! pl)))) (snd (bound s e (length_r (h ! pl)))))
       (\<lambda>(h2, l').
         bindR (modify h2 (Some (length h)) (\<lambda>x. x\<lparr>left := l'\<rparr>)) (\<lambda>h3.
         bindR (field h3 (Some a) left) (\<lambda>l3.
         bindR (field h3 l3 length_r) (\<lambda>ll3.
         bindR (field h3 (Some a) right) (\<lambda>r3.
         bindR (field h3 r3 length_r) (\<lambda>rl3.
         let (rightStart, rightEnd) = bound (s - ll3) (e - ll3) rl3 in
         bindR (Remove m h3 r3 rightStart rightEnd) (\<lambda>(h4, r').
         bindR (modify h4 (Some (length h)) (\<lambda>x. x\<lparr>right := r'\<rparr>)) (\<lambda>h5.
         bindR (field h5 (Some (length h)) left) (\<lambda>cl.
         bindR (field h5 cl length_r) (\<lambda>cll.
         bindR (field h5 (Some (length h)) right) (\<lambda>cr.
         bindR (field h5 cr length_r) (\<lambda>crl.
         bindR (modify h5 (Some (length h)) (\<lambda>x. x\<lparr>length_r := cll + crl\<rparr>)) (\<lambda>h6.
         bindR (adjust m h6 (Some (length h))) (\<lambda>h7.
         Inr (h7, Some (length h))))))))))))))))"
  using assms
  by (simp add: Remove.simps(2) alloc_def nth_append split_node_def Let_def split_beta)

lemma ext_update: "h2 = h @ ext \<Longrightarrow> length h \<le> b \<Longrightarrow> \<exists>ext'. h2[b := x] = h @ ext'"
  by (auto simp: list_update_append)

lemma Remove_sound:
  fixes h :: "('a::zero, 'f) heap"
  shows "rep cfg h t \<Longrightarrow> Remove n h (Some (root t)) s e = Inr (h', p') \<Longrightarrow>
   \<exists>t' ext. h' = h @ ext \<and> p' = Some (root t') \<and> rep cfg h' t' \<and>
     set (addrs t') \<subseteq> set (addrs t) \<union> {length h..<length h'} \<and>
     (distinct (addrs t) \<longrightarrow> distinct (addrs t'))"
proof (induction t arbitrary: n h h' p' s e)
  case (Leaf a xs)
  from Leaf.prems obtain m where n: "n = Suc m" by (cases n) auto
  show ?case
  proof (cases "s = e")
    case True
    with Leaf.prems n have "h' = h @ []" "p' = Some (root (Leaf a xs))"
      by (auto simp: Remove_same)
    with Leaf.prems(1) show ?thesis by (intro exI[of _ "Leaf a xs"] exI[of _ "[]"]) auto
  next
    case False
    with Leaf.prems n obtain nv where new: "NewRope m h (Some nv) cfg = Inr (h', p')"
      by (auto simp: Remove_leaf bindR_eq_Inr)
    from NewRope_sound[OF new] obtain t' ext where t':
      "h' = h @ ext" "p' = Some (length h)" "rep cfg h' t'" "root t' = length h"
      "distinct (addrs t')" "\<forall>a \<in> set (addrs t'). length h \<le> a"
      by blast
    have "set (addrs t') \<subseteq> {length h..<length h'}"
      using t'(6) rep_addrs_less[OF t'(3)] by auto
    with t' show ?thesis
      by (intro exI[of _ t'] exI[of _ ext]) auto
  qed
next
  case (Node a l r)
  from Node.prems obtain m where n: "n = Suc m" by (cases n) auto
  show ?case
  proof (cases "s = e")
    case True
    with Node.prems n have "h' = h @ []" "p' = Some (root (Node a l r))"
      by (auto simp: Remove_same)
    with Node.prems(1) show ?thesis by (intro exI[of _ "Node a l r"] exI[of _ "[]"]) auto
  next
    case False
    let ?L = "int (length (flatten l))" and ?R = "int (length (flatten r))"
    let ?b = "length h"
    let ?c0 = "split_node cfg 0 None None :: ('a, 'f) Rope"
    let ?h1 = "h @ [?c0]"
    from Node.prems have a: "a < length h"
      "h ! a = split_node cfg (?L + ?R) (Some (root l)) (Some (root r))"
      and rl: "rep cfg h l" and rr: "rep cfg h r" by auto
    have pl: "root l < length h" "length_r (h ! root l) = ?L"
      using rl by (auto simp: rep_root_less rep_length)
    have pr: "root r < length h" "length_r (h ! root r) = ?R"
      using rr by (auto simp: rep_root_less rep_length)
    have old: "x < ?b" if "x \<in> set (addrs l) \<or> x \<in> set (addrs r)" for x
      using that rep_addrs_less[OF rl] rep_addrs_less[OF rr] by auto
    note main = Node.prems(2)[unfolded n root.simps Remove_node[OF a pl(1) False, of m] pl(2)]
    let ?ls = "fst (bound s e ?L)" and ?le = "snd (bound s e ?L)"
    from main obtain h2 l' where
      rec1: "Remove m ?h1 (Some (root l)) ?ls ?le = Inr (h2, l')"
      by (auto simp: bindR_eq_Inr)
    from Node.IH(1)[OF rep_append[OF rl] rec1] obtain tl e1 where tl:
      "h2 = ?h1 @ e1" "l' = Some (root tl)" "rep cfg h2 tl"
      "set (addrs tl) \<subseteq> set (addrs l) \<union> {length ?h1..<length h2}"
      "distinct (addrs l) \<longrightarrow> distinct (addrs tl)"
      by blast
    have h2: "?b < length h2" "h2 ! ?b = ?c0" "a < length h2" "h2 ! a = h ! a"
      "root l < length h2" "h2 ! root l = h ! root l"
      "root r < length h2" "h2 ! root r = h ! root r"
      using tl(1) a(1) pl(1) pr(1) by (simp_all add: nth_append)
    have ne: "a \<noteq> ?b" "root l \<noteq> ?b" "root r \<noteq> ?b"
      using a(1) pl(1) pr(1) by auto
    let ?h3 = "h2[?b := split_node cfg 0 l' None]"
    let ?rs = "fst (bound (s - ?L) (e - ?L) ?R)" and ?re = "snd (bound (s - ?L) (e - ?L) ?R)"
    from main rec1 h2 ne obtain h4 r' where
      rec2: "Remove m ?h3 (Some (root r)) ?rs ?re = Inr (h4, r')"
      by (auto simp: bindR_eq_Inr a(2) pl(2) pr(2) split_beta)
    have nb: "?b \<notin> set (addrs l)" "?b \<notin> set (addrs r)" "?b \<notin> set (addrs tl)"
      using old[of ?b] tl(4) by auto
    have r3: "rep cfg ?h3 r"
      using rr nb(2) unfolding tl(1) by (intro rep_update rep_append) auto
    from Node.IH(2)[OF r3 rec2] obtain tr e2 where tr:
      "h4 = ?h3 @ e2" "r' = Some (root tr)" "rep cfg h4 tr"
      "set (addrs tr) \<subseteq> set (addrs r) \<union> {length ?h3..<length h4}"
      "distinct (addrs r) \<longrightarrow> distinct (addrs tr)"
      by blast
    have nb2: "?b \<notin> set (addrs tr)"
      using old[of ?b] tr(4) h2(1) by auto
    have tl4: "rep cfg h4 tl"
      unfolding tr(1) using tl(3) nb(3) by (intro rep_append rep_update) auto
    have h4a: "?b < length h4" "h4 ! ?b = split_node cfg 0 l' None"
      using h2(1) by (simp_all add: tr(1) nth_append)
    have h4b: "root tl \<noteq> ?b" "root tr \<noteq> ?b"
      using nb(3) nb2 root_in_addrs[of tl] root_in_addrs[of tr] by metis+
    note h4 = h4a rep_root_less[OF tl4] rep_length[OF tl4] rep_root_less[OF tr(3)]
      rep_length[OF tr(3)] h4b
    let ?len = "int (length (flatten tl)) + int (length (flatten tr))"
    let ?h6 = "h4[?b := split_node cfg ?len (Some (root tl)) (Some (root tr))]"
    from main rec1 rec2 h2 ne h4 have
      adj: "adjust m ?h6 (Some ?b) = Inr h'" and p': "p' = Some ?b"
      by (auto simp: bindR_eq_Inr a(2) pl(2) pr(2) split_beta tl(2) tr(2))
    from adj obtain k where m: "m = Suc k" by (cases m) auto
    have h6: "?b < length ?h6"
      "?h6 ! ?b = split_node cfg ?len (Some (root tl)) (Some (root tr))"
      using h4(1) by simp_all
    have ext6: "\<exists>ext. ?h6 = h @ ext"
      using tl(1) tr(1) by (auto simp: list_update_append)
    have "{length ?h1..<length h2} \<subseteq> {?b..<length h4}"
         "{length ?h3..<length h4} \<subseteq> {?b..<length h4}"
      using h2(1) by (auto simp: tr(1))
    with tl(4) tr(4) have
      fresh: "set (addrs tl) \<subseteq> set (addrs l) \<union> {?b..<length h4}"
             "set (addrs tr) \<subseteq> set (addrs r) \<union> {?b..<length h4}"
      by blast+
    show ?thesis
    proof (cases "?len < JoinLength cfg")
      case True
      from adjust_node_join[OF h6 True adj[unfolded m]] obtain buf where
        buf: "int (length buf) = ?len" "h' = ?h6[?b := leaf_node cfg buf]" by blast
      from ext6 buf(2) obtain ext where ext: "h' = h @ ext"
        using ext_update[of ?h6 h _ ?b] by (metis order_refl)
      have "rep cfg h' (Leaf ?b buf)" using buf(2) h4(1) by simp
      moreover have "set (addrs (Leaf ?b buf)) \<subseteq> set (addrs (Node a l r)) \<union> {?b..<length h'}"
        using buf(2) h4(1) by simp
      ultimately show ?thesis
        using ext p' by (intro exI[of _ "Leaf ?b buf"] exI[of _ ext]) simp
    next
      case False
      from adjust_node_keep[OF h6 False, of k] adj m have h': "h' = ?h6" by simp
      from ext6 h' obtain ext where ext: "h' = h @ ext" by auto
      have "rep cfg h' tl" "rep cfg h' tr"
        unfolding h' using tl4 tr(3) nb(3) nb2 by (auto intro: rep_update)
      then have "rep cfg h' (Node ?b tl tr)"
        unfolding h' using h4(1) by simp
      moreover have "set (addrs (Node ?b tl tr)) \<subseteq> set (addrs (Node a l r)) \<union> {?b..<length h'}"
        using fresh h4(1) unfolding h' by auto
      moreover have "distinct (addrs (Node a l r)) \<longrightarrow> distinct (addrs (Node ?b tl tr))"
      proof
        assume d: "distinct (addrs (Node a l r))"
        have "x \<notin> set (addrs tr)" if x: "x \<in> set (addrs tl)" for x
        proof
          assume x2: "x \<in> set (addrs tr)"
          from x tl(4) have c1: "x \<in> set (addrs l) \<or> (length ?h1 \<le> x \<and> x < length h2)" by auto
          from x2 tr(4) have c2: "x \<in> set (addrs r) \<or> length h2 \<le> x" by auto
          from c1 c2 d old[of x] h2(1) show False by auto
        qed
        then have "set (addrs tl) \<inter> set (addrs tr) = {}" by auto
        with d tl(5) tr(5) nb(3) nb2 show "distinct (addrs (Node ?b tl tr))" by simp
      qed
      ultimately show ?thesis
        using ext p' by (intro exI[of _ "Node ?b tl tr"] exI[of _ ext])
          (simp del: addrs.simps rep.simps)
    qed
  qed
qed

subsection \<open>Rebalance\<close>

lemma rep_frame:
  "rep cfg h t \<Longrightarrow> (\<And>x. x \<in> set (addrs t) \<Longrightarrow> x < length h' \<and> h' ! x = h ! x) \<Longrightarrow> rep cfg h' t"
  by (induction t) auto

lemma Rebalance_leaf:
  fixes h :: "('a::zero, 'f) heap"
  assumes "a < length h" "h ! a = leaf_node cfg xs"
  shows "Rebalance gt (Suc m) h (Some a) = Inr h"
  using assms by (simp add: Rebalance.simps(2))

lemma Rebalance_node:
  fixes h :: "('a::zero, 'f) heap"
  assumes "a < length h" "h ! a = split_node cfg n (Some pl) (Some pr)"
    "pl < length h" "pr < length h"
  shows "Rebalance gt (Suc m) h (Some a) =
    (if gt (length_r (h ! pl)) (length_r (h ! pr)) (Settings.Rebalance cfg) \<or>
        gt (length_r (h ! pr)) (length_r (h ! pl)) (Settings.Rebalance cfg) then
       bindR (Value m h (Some a)) (\<lambda>v.
       bindR (NewRope m h (Some v) cfg) (\<lambda>(h1, rebalancedRope).
       bindR (deref h1 rebalancedRope) (\<lambda>new.
       modify h1 (Some a) (\<lambda>_. new))))
     else
       bindR (Rebalance gt m h (Some pl)) (\<lambda>h1.
       bindR (field h1 (Some a) right) (\<lambda>r1.
       Rebalance gt m h1 r1)))"
  using assms by (simp add: Rebalance.simps(2))

lemma Rebalance_rep:
  fixes h :: "('a::zero, 'f) heap"
  assumes split: "1 \<le> SplitLength cfg"
  shows "rep cfg h t \<Longrightarrow> distinct (addrs t) \<Longrightarrow> height t + 2 * length (flatten t) + 3 \<le> n \<Longrightarrow>
    \<exists>h' t'. Rebalance gt n h (Some (root t)) = Inr h' \<and> rep cfg h' t' \<and> root t' = root t \<and>
      flatten t' = flatten t \<and> distinct (addrs t') \<and> length h \<le> length h' \<and>
      set (addrs t') \<subseteq> set (addrs t) \<union> {length h..<length h'} \<and>
      (\<forall>x < length h. x \<notin> set (addrs t) \<longrightarrow> h' ! x = h ! x)"
proof (induction t arbitrary: n h)
  case (Leaf a xs)
  from Leaf.prems obtain m where n: "n = Suc m" by (cases n) auto
  from Leaf.prems have "Rebalance gt n h (Some a) = Inr h"
    by (simp add: n Rebalance_leaf)
  with Leaf.prems show ?case
    by (intro exI[of _ h] exI[of _ "Leaf a xs"]) simp
next
  case (Node a l r)
  from Node.prems obtain m where n: "n = Suc m" by (cases n) auto
  let ?L = "int (length (flatten l))" and ?R = "int (length (flatten r))"
  let ?S = "flatten l @ flatten r"
  from Node.prems have a: "a < length h"
    "h ! a = split_node cfg (?L + ?R) (Some (root l)) (Some (root r))"
    and rl: "rep cfg h l" and rr: "rep cfg h r" by auto
  have pl: "root l < length h" "length_r (h ! root l) = ?L"
    using rl by (auto simp: rep_root_less rep_length)
  have pr: "root r < length h" "length_r (h ! root r) = ?R"
    using rr by (auto simp: rep_root_less rep_length)
  have old: "x < length h" if "x \<in> set (addrs l) \<or> x \<in> set (addrs r)" for x
    using that rep_addrs_less[OF rl] rep_addrs_less[OF rr] by auto
  from Node.prems(2) have d: "a \<notin> set (addrs l)" "a \<notin> set (addrs r)"
    "distinct (addrs l)" "distinct (addrs r)" "set (addrs l) \<inter> set (addrs r) = {}"
    by auto
  note unfold = Rebalance_node[OF a pl(1) pr(1), of gt m, unfolded pl(2) pr(2)]
  show ?case
  proof (cases "gt ?L ?R (Settings.Rebalance cfg) \<or> gt ?R ?L (Settings.Rebalance cfg)")
    case True
    have v: "Value m h (Some a) = Inr ?S"
      using Value_rep[OF Node.prems(1), of m] Node.prems(3) n by simp
    from NewRope_total[OF split, of ?S m h] Node.prems(3) n obtain tn ext where tn:
      "NewRope m h (Some ?S) cfg = Inr (h @ ext, Some (length h))"
      "rep cfg (h @ ext) tn" "root tn = length h" "flatten tn = ?S" "distinct (addrs tn)"
      "\<forall>x \<in> set (addrs tn). length h \<le> x"
      by auto
    let ?h1 = "h @ ext"
    let ?new = "?h1 ! length h"
    let ?h' = "?h1[a := ?new]"
    have b: "length h < length ?h1" using rep_root_less[OF tn(2)] tn(3) by simp
    have res: "Rebalance gt n h (Some a) = Inr ?h'"
      using True v tn(1) a(1) b by (simp add: n unfold)
    have fr: "\<forall>x < length h. x \<notin> set (addrs (Node a l r)) \<longrightarrow> ?h' ! x = h ! x"
      by (simp add: nth_append)
    have len: "length h \<le> length ?h'" by simp
    show ?thesis
    proof (cases tn)
      case (Leaf b xs)
      with tn have "?new = leaf_node cfg xs" "xs = ?S" by auto
      then have "rep cfg ?h' (Leaf a xs)" using a(1) by simp
      with res fr len \<open>xs = ?S\<close> show ?thesis
        by (intro exI[of _ ?h'] exI[of _ "Leaf a xs"]) simp
    next
      case (Node b tl tr)
      with tn have new: "?new = split_node cfg (int (length (flatten tl)) + int (length (flatten tr)))
           (Some (root tl)) (Some (root tr))"
        and sub: "rep cfg ?h1 tl" "rep cfg ?h1 tr" and fl: "flatten tl @ flatten tr = ?S"
        and lo: "\<forall>x \<in> set (addrs tl). length h \<le> x" "\<forall>x \<in> set (addrs tr). length h \<le> x"
        and dd: "distinct (addrs tl)" "distinct (addrs tr)" "set (addrs tl) \<inter> set (addrs tr) = {}"
        by auto
      have na: "a \<notin> set (addrs tl)" "a \<notin> set (addrs tr)"
        using lo a(1) by auto
      have "rep cfg ?h' tl" "rep cfg ?h' tr"
        using sub na by (auto intro: rep_update)
      then have rp: "rep cfg ?h' (Node a tl tr)"
        using a(1) new by simp
      have ad: "set (addrs (Node a tl tr)) \<subseteq> set (addrs (Node a l r)) \<union> {length h..<length ?h'}"
        using lo rep_addrs_less[OF sub(1)] rep_addrs_less[OF sub(2)] by auto
      have di: "distinct (addrs (Node a tl tr))"
        using dd na by simp
      show ?thesis
        using res rp fl di len ad fr
        by (intro exI[of _ ?h'] exI[of _ "Node a tl tr"]) (simp del: rep.simps addrs.simps)
    qed
  next
    case False
    have fuel: "height l + 2 * length (flatten l) + 3 \<le> m"
      "height r + 2 * length (flatten r) + 3 \<le> m"
      using Node.prems(3) n by auto
    from Node.IH(1)[OF rl d(3) fuel(1)] obtain h1 tl where tl:
      "Rebalance gt m h (Some (root l)) = Inr h1" "rep cfg h1 tl" "root tl = root l"
      "flatten tl = flatten l" "distinct (addrs tl)" "length h \<le> length h1"
      "set (addrs tl) \<subseteq> set (addrs l) \<union> {length h..<length h1}"
      "\<forall>x < length h. x \<notin> set (addrs l) \<longrightarrow> h1 ! x = h ! x"
      by blast
    have h1a: "a < length h1" "h1 ! a = h ! a"
      using tl(6,8) a(1) d(1) by auto
    have r1: "rep cfg h1 r"
    proof (rule rep_frame[OF rr])
      fix x assume "x \<in> set (addrs r)"
      with old[of x] d(5) tl(6,8) show "x < length h1 \<and> h1 ! x = h ! x" by auto
    qed
    from Node.IH(2)[OF r1 d(4) fuel(2)] obtain h2 tr where tr:
      "Rebalance gt m h1 (Some (root r)) = Inr h2" "rep cfg h2 tr" "root tr = root r"
      "flatten tr = flatten r" "distinct (addrs tr)" "length h1 \<le> length h2"
      "set (addrs tr) \<subseteq> set (addrs r) \<union> {length h1..<length h2}"
      "\<forall>x < length h1. x \<notin> set (addrs r) \<longrightarrow> h2 ! x = h1 ! x"
      by blast
    have res: "Rebalance gt n h (Some a) = Inr h2"
      using False tl(1) tr(1) h1a a(2) by (simp add: n unfold)
    have l2: "rep cfg h2 tl"
    proof (rule rep_frame[OF tl(2)])
      fix x assume x: "x \<in> set (addrs tl)"
      then have "x < length h1" using rep_addrs_less[OF tl(2)] by simp
      moreover have "x \<notin> set (addrs r)"
        using x tl(7) d(5) old[of x] by auto
      ultimately show "x < length h2 \<and> h2 ! x = h1 ! x" using tr(6,8) by auto
    qed
    have h2a: "a < length h2" "h2 ! a = h ! a"
      using tr(6,8) h1a d(2) by auto
    have rp: "rep cfg h2 (Node a tl tr)"
      using l2 tr(2) h2a a(2) tl(3,4) tr(3,4) by simp
    have na: "a \<notin> set (addrs tl)" "a \<notin> set (addrs tr)"
      using tl(7) tr(7) d(1,2) a(1) tl(6) by auto
    have disj: "set (addrs tl) \<inter> set (addrs tr) = {}"
    proof -
      have "x \<notin> set (addrs tr)" if x: "x \<in> set (addrs tl)" for x
      proof
        assume x2: "x \<in> set (addrs tr)"
        from x tl(7) have c1: "x \<in> set (addrs l) \<or> (length h \<le> x \<and> x < length h1)" by auto
        from x2 tr(7) have c2: "x \<in> set (addrs r) \<or> length h1 \<le> x" by auto
        from c1 c2 d(5) old[of x] tl(6) show False by auto
      qed
      then show ?thesis by auto
    qed
    have di: "distinct (addrs (Node a tl tr))"
      using tl(5) tr(5) na disj by simp
    have ad: "set (addrs (Node a tl tr)) \<subseteq> set (addrs (Node a l r)) \<union> {length h..<length h2}"
      using tl(6,7) tr(6,7) by auto
    have fr: "\<forall>x < length h. x \<notin> set (addrs (Node a l r)) \<longrightarrow> h2 ! x = h ! x"
      using tl(6,8) tr(8) by auto
    have len: "length h \<le> length h2" using tl(6) tr(6) by simp
    have fl: "flatten (Node a tl tr) = flatten (Node a l r)" using tl(4) tr(4) by simp
    show ?thesis
      using res rp fl di len ad fr
      by (intro exI[of _ h2] exI[of _ "Node a tl tr"]) (simp del: rep.simps addrs.simps flatten.simps)
  qed
qed

lemma Rebalance_returns:
  fixes h :: "('a::zero, 'f) heap"
  assumes "rep cfg h t" "distinct (addrs t)" "height t = 0 \<or> 1 \<le> SplitLength cfg"
    "height t + 2 * length (flatten t) + 3 \<le> n"
  shows "\<exists>h'. Rebalance gt n h (Some (root t)) = Inr h'"
proof (cases "1 \<le> SplitLength cfg")
  case True
  from Rebalance_rep[OF True assms(1,2,4), of gt] show ?thesis by blast
next
  case False
  with assms(3) obtain a xs where l: "t = Leaf a xs" by (cases t) auto
  from assms(4) obtain m where "n = Suc m" by (cases n) auto
  with assms(1) show ?thesis unfolding l by (simp add: Rebalance_leaf)
qed

lemma Slice_rep_all:
  fixes h :: "('a::zero, 'f) heap"
  assumes "rep cfg h t" "height t < n"
  shows "Slice n h (Some (root t)) 0 (int (length (flatten t))) = Inr (flatten t)"
  using CopySlice_rep[OF assms(1), of 0 "length (flatten t)"
      "replicate (length (flatten t)) 0" n] assms(2)
  by (simp add: Slice_def make_def)

subsection \<open>Produced ropes\<close>

lemma reach_subtree:
  "reach h p a \<Longrightarrow> rep cfg h t \<Longrightarrow> p = Some (root t) \<Longrightarrow> \<exists>u. rep cfg h u \<and> root u = a"
proof (induction rule: reach.induct)
  case (reach_root a h)
  then show ?case by auto
next
  case (reach_left h p a b)
  then obtain u where u: "rep cfg h u" "root u = a" by blast
  with reach_left.hyps(2) show ?case by (cases u) auto
next
  case (reach_right h p a b)
  then obtain u where u: "rep cfg h u" "root u = a" by blast
  with reach_right.hyps(2) show ?case by (cases u) auto
qed

lemma produced_rep:
  fixes h :: "('a::zero, 'f) heap"
  shows "produced cfg h r \<Longrightarrow>
    \<exists>t. rep cfg h t \<and> r = Some (root t) \<and> distinct (addrs t) \<and>
        (height t = 0 \<or> 1 \<le> SplitLength cfg)"
proof (induction rule: produced.induct)
  case (by_NewRope n h0 S h r)
  from NewRope_sound[OF this] obtain t where
    t: "rep cfg h t" "r = Some (root t)" "distinct (addrs t)" by metis
  with NewRope_flat[OF by_NewRope _ t(1,2)] show ?case by (cases "1 \<le> SplitLength cfg") auto
next
  case (by_Insert h r n i X h' r')
  then obtain t where t: "rep cfg h t" "r = Some (root t)" "distinct (addrs t)"
    "height t = 0 \<or> 1 \<le> SplitLength cfg" by blast
  note ins = by_Insert.hyps(2)[unfolded t(2)]
  from Insert_sound[OF t(1) ins] t(3) obtain t' where
    t': "rep cfg h' t'" "r' = Some (root t')" "distinct (addrs t')" by metis
  show ?case
  proof (cases "1 \<le> SplitLength cfg")
    case True
    with t' show ?thesis by blast
  next
    case False
    with t(4) obtain a xs where l: "t = Leaf a xs" by (cases t) auto
    from ins obtain m where n: "n = Suc m" by (cases n) auto
    from ins t(1) obtain ys where "NewRope m h (Some ys) cfg = Inr (h', r')"
      unfolding l n by (auto simp: Insert_leaf split: if_splits)
    from NewRope_flat[OF this _ t'(1,2)] False t' show ?thesis by auto
  qed
next
  case (by_Remove h r n s e h' r')
  then obtain t where t: "rep cfg h t" "r = Some (root t)" "distinct (addrs t)"
    "height t = 0 \<or> 1 \<le> SplitLength cfg" by blast
  note rem = by_Remove.hyps(2)[unfolded t(2)]
  from Remove_sound[OF t(1) rem] t(3) obtain t' where
    t': "rep cfg h' t'" "r' = Some (root t')" "distinct (addrs t')" by metis
  show ?case
  proof (cases "1 \<le> SplitLength cfg")
    case True
    with t' show ?thesis by blast
  next
    case False
    with t(4) obtain a xs where l: "t = Leaf a xs" by (cases t) auto
    from rem obtain m where n: "n = Suc m" by (cases n) auto
    show ?thesis
    proof (cases "s = e")
      case True
      with rem have "h' = h" "r' = Some (root t)" unfolding n by (simp_all add: Remove_same)
      with t show ?thesis by blast
    next
      case ne: False
      from rem t(1) ne obtain ys where "NewRope m h (Some ys) cfg = Inr (h', r')"
        unfolding l n by (auto simp: Remove_leaf bindR_eq_Inr)
      from NewRope_flat[OF this _ t'(1,2)] False t' show ?thesis by auto
    qed
  qed
next
  case (after_NewRope h q n S cfg' h' r)
  then obtain t where t: "rep cfg h t" "q = Some (root t)" "distinct (addrs t)"
    "height t = 0 \<or> 1 \<le> SplitLength cfg" by blast
  from NewRope_sound[OF after_NewRope.hyps(2)] obtain ext where "h' = h @ ext" by blast
  with t rep_append[OF t(1), of ext] show ?case by blast
next
  case (after_Insert h q r n i X h' r')
  then obtain t u where t: "rep cfg h t" "q = Some (root t)" "distinct (addrs t)"
    "height t = 0 \<or> 1 \<le> SplitLength cfg"
    and u: "rep cfg h u" "r = Some (root u)" by blast
  from Insert_sound[OF u(1) after_Insert.hyps(3)[unfolded u(2)]] obtain ext where
    "h' = h @ ext" by blast
  with t rep_append[OF t(1), of ext] show ?case by blast
next
  case (after_Remove h q r n s e h' r')
  then obtain t u where t: "rep cfg h t" "q = Some (root t)" "distinct (addrs t)"
    "height t = 0 \<or> 1 \<le> SplitLength cfg"
    and u: "rep cfg h u" "r = Some (root u)" by blast
  from Remove_sound[OF u(1) after_Remove.hyps(3)[unfolded u(2)]] obtain ext where
    "h' = h @ ext" by blast
  with t rep_append[OF t(1), of ext] show ?case by blast
qed

lemma produced_node:
  fixes h :: "('a::zero, 'f) heap"
  assumes "produced cfg h r" "reach h r a"
  shows "\<exists>u. rep cfg h u \<and> root u = a"
proof -
  from produced_rep[OF assms(1)] obtain t where "rep cfg h t" "r = Some (root t)" by blast
  with reach_subtree[OF assms(2)] show ?thesis by blast
qed

subsection \<open>The ropes of the test file\<close>

lemma originalRope_built:
  "NewRope 4 [] (Some originalValue) testSettings = Inr (originalRope, Some 0)"
  by code_simp

lemma insertedRope_built:
  "Insert 6 originalRope (Some 0) 2 [- 1, - 2, - 3] = Inr (insertedRope, Some 3)"
  by code_simp

lemma removedRope_built:
  "Remove 4 originalRope (Some 0) 1 6 = Inr (removedRope, Some 3)"
  by code_simp

lemma originalRope_rep: "rep testSettings originalRope originalTree"
  by (simp add: originalRope_def originalTree_def)

lemma insertedRope_rep: "rep testSettings insertedRope insertedTree"
  by (simp add: insertedRope_def originalRope_def insertedTree_def)

lemma removedRope_produced: "produced testSettings removedRope (Some 3)"
  by (rule by_Remove[OF by_NewRope[OF originalRope_built] removedRope_built])

section \<open>The claims\<close>

text \<open>
  C1. \<^verbatim>\<open>Remove\<close> on a rope built from \<open>S\<close> should return a rope whose value is \<open>S\<close> without
  the elements \<open>start..<end\<close>. On the rope of the test file, under the test settings,
  \<^verbatim>\<open>Remove(0, 7)\<close> leaves the children \<open>[]\<close> and \<open>[7]\<close>, whose total length is below the join
  threshold; the join of \<^verbatim>\<open>adjust\<close> copies the right child through
  \<^verbatim>\<open>r.value[:r.left.length]\<close>, a slice of length 0, and the value of the result is \<open>[0]\<close>,
  the zero value, where \<open>S[:0] + S[7:]\<close> is \<open>[7]\<close>. The original rope keeps its value.
\<close>

theorem Remove_join_loses_elements:
  "NewRope 4 [] (Some originalValue) testSettings = Inr (originalRope, Some 0) \<and>
   Remove 4 originalRope (Some 0) 0 7 =
     Inr (originalRope @ [leaf_node testSettings [0], leaf_node testSettings [],
                          leaf_node testSettings [7]], Some 3) \<and>
   Value 1 (originalRope @ [leaf_node testSettings [0], leaf_node testSettings [],
                            leaf_node testSettings [7]]) (Some 3) = Inr [0] \<and>
   Value 2 (originalRope @ [leaf_node testSettings [0], leaf_node testSettings [],
                            leaf_node testSettings [7]]) (Some 0) = Inr originalValue \<and>
   take 0 originalValue @ drop 7 originalValue = [7]"
  by code_simp

text \<open>
  C2. When \<^verbatim>\<open>adjust\<close> joins a split node, the buffer of the leaf should be the content of
  the left child followed by the content of the right child. With a split threshold of 4
  and a join threshold of 3, \<^verbatim>\<open>Remove(1, 7)\<close> on the rope of the test sequence builds a
  node over the leaves \<open>[0]\<close> and \<open>[7]\<close>; \<^verbatim>\<open>adjust\<close> joins it into the buffer \<open>[7, 0]\<close>, the
  right child written over the left one and the remaining segment left at the zero value,
  where the claim says \<open>[0, 7]\<close>. \<^verbatim>\<open>Copy\<close> itself writes the right child through
  \<^verbatim>\<open>dst[r.left.length:]\<close>.
\<close>

theorem adjust_join_misplaces_right:
  "NewRope 4 [] (Some originalValue) joinSettings = Inr (joinRope, Some 0) \<and>
   Remove 4 joinRope (Some 0) 1 7 =
     Inr (joinRope @ [leaf_node joinSettings [7, 0], leaf_node joinSettings [0],
                      leaf_node joinSettings [7]], Some 3) \<and>
   adjust 2 (joinRope @ [split_node joinSettings 2 (Some 4) (Some 5),
                         leaf_node joinSettings [0], leaf_node joinSettings [7]]) (Some 3) =
     Inr (joinRope @ [leaf_node joinSettings [7, 0], leaf_node joinSettings [0],
                      leaf_node joinSettings [7]]) \<and>
   Copy 2 (joinRope @ [split_node joinSettings 2 (Some 4) (Some 5),
                       leaf_node joinSettings [0], leaf_node joinSettings [7]]) (Some 3)
     [0, 0] = Inr [0, 7]"
  by code_simp



text \<open>
  C4. \<^verbatim>\<open>Rebalance\<close> on a rope returns, given enough fuel, and the value of the rope in the
  store it leaves is the value before the call, whatever the ratio test answers. The rope
  is any well-formed rope whose nodes are pairwise distinct and that is a single leaf
  unless the split threshold is at least 1: every rope that \<^verbatim>\<open>NewRope\<close>, \<^verbatim>\<open>Insert\<close> and
  \<^verbatim>\<open>Remove\<close> produce is one (\<open>produced_rep\<close>), and so is the rope that \<^verbatim>\<open>Rebalance\<close>
  leaves (\<open>Rebalance_rep\<close>).
\<close>

theorem Rebalance_keeps_value:
  fixes h :: "('a::zero, 'f) heap"
  assumes "rep cfg h t" and "distinct (addrs t)" and "height t = 0 \<or> 1 \<le> SplitLength cfg"
  shows "\<exists>n. \<forall>k. \<exists>h'. Rebalance gt (n + k) h (Some (root t)) = Inr h' \<and>
     (\<exists>m. \<forall>j. \<exists>v. Value (m + j) h (Some (root t)) = Inr v \<and>
                    Value (m + j) h' (Some (root t)) = Inr v)"
proof (cases "1 \<le> SplitLength cfg")
  case True
  let ?n = "height t + 2 * length (flatten t) + 3"
  have "\<exists>h'. Rebalance gt (?n + k) h (Some (root t)) = Inr h' \<and>
     (\<exists>m. \<forall>j. \<exists>v. Value (m + j) h (Some (root t)) = Inr v \<and>
                    Value (m + j) h' (Some (root t)) = Inr v)" for k
  proof -
    from Rebalance_rep[OF True assms(1,2), of "?n + k" gt] obtain h' t' where r:
      "Rebalance gt (?n + k) h (Some (root t)) = Inr h'" "rep cfg h' t'" "root t' = root t"
      "flatten t' = flatten t"
      by auto
    let ?m = "Suc (max (height t) (height t'))"
    have "Value (?m + j) h (Some (root t)) = Inr (flatten t) \<and>
          Value (?m + j) h' (Some (root t)) = Inr (flatten t)" for j
      using Value_rep[OF assms(1), of "?m + j"] Value_rep[OF r(2), of "?m + j"] r(3,4) by simp
    with r(1) show ?thesis by blast
  qed
  then show ?thesis by blast
next
  case False
  with assms(3) obtain a xs where l: "t = Leaf a xs" by (cases t) auto
  have "Rebalance gt (1 + k) h (Some (root t)) = Inr h" for k
    using assms(1) unfolding l by (simp add: Rebalance_leaf)
  moreover have "Value (1 + j) h (Some (root t)) = Inr (flatten t)" for j
    using Value_rep[OF assms(1), of "1 + j"] l by simp
  ultimately show ?thesis by blast
qed

theorem Rebalance_keeps_value_witness:
  "rep testSettings insertedRope insertedTree \<and> distinct (addrs insertedTree) \<and>
   1 \<le> SplitLength testSettings \<and>
   (\<exists>n. \<forall>k. \<exists>h'. Rebalance ratio_exceeds (n + k) insertedRope (Some (root insertedTree)) = Inr h' \<and>
     (\<exists>m. \<forall>j. \<exists>v. Value (m + j) insertedRope (Some (root insertedTree)) = Inr v \<and>
                    Value (m + j) h' (Some (root insertedTree)) = Inr v))"
proof -
  have d: "distinct (addrs insertedTree)"
    by (simp add: insertedTree_def)
  have c: "1 \<le> SplitLength testSettings"
    by (simp add: testSettings_def)
  then have h: "height insertedTree = 0 \<or> 1 \<le> SplitLength testSettings" ..
  show ?thesis
    using d c insertedRope_rep
      Rebalance_keeps_value[OF insertedRope_rep d h, of ratio_exceeds]
    by blast
qed

text \<open>
  C5. For a well-formed rope and indexes with \<open>0 \<le> a \<le> b \<le> Length()\<close>, \<^verbatim>\<open>Slice(a, b)\<close>
  returns, given enough fuel, the elements \<open>a..<b\<close> of what \<^verbatim>\<open>Value()\<close> returns.
\<close>

theorem Slice_is_Value_range:
  fixes h :: "('a::zero, 'f) heap"
  assumes "rep cfg h t" and "Length h (Some (root t)) = Inr L"
    and "0 \<le> a" and "a \<le> b" and "b \<le> L"
  shows "\<exists>n. \<forall>k. \<exists>v. Value (n + k) h (Some (root t)) = Inr v \<and>
     Slice (n + k) h (Some (root t)) a b = Inr (take (nat (b - a)) (drop (nat a) v))"
proof -
  have L: "L = int (length (flatten t))"
    using assms(2) rep_root_less[OF assms(1)] rep_length[OF assms(1)] by (simp add: Length_def)
  from assms(3,4) obtain i j where ij: "a = int i" "b = int j" "i \<le> j"
    by (metis nat_0_le nat_le_iff order_trans)
  have j: "j \<le> length (flatten t)" using assms(5) L ij by simp
  have d: "nat (int j - int i) = j - i" by linarith
  have "Slice (Suc (height t) + k) h (Some (root t)) a b =
      Inr (take (nat (b - a)) (drop (nat a) (flatten t)))" for k
    using CopySlice_rep[OF assms(1) ij(3) j, of "replicate (j - i) 0" "Suc (height t) + k"] ij(3)
    by (simp add: Slice_def make_def ij(1,2) d)
  moreover have "Value (Suc (height t) + k) h (Some (root t)) = Inr (flatten t)" for k
    using Value_rep[OF assms(1), of "Suc (height t) + k"] by simp
  ultimately show ?thesis by blast
qed

theorem Slice_is_Value_range_witness:
  "rep testSettings originalRope originalTree \<and>
   Length originalRope (Some (root originalTree)) = Inr 8 \<and>
   (0::int) \<le> 2 \<and> (2::int) \<le> 7 \<and> (7::int) \<le> 8 \<and>
   (\<exists>n. \<forall>k. \<exists>v. Value (n + k) originalRope (Some (root originalTree)) = Inr v \<and>
     Slice (n + k) originalRope (Some (root originalTree)) 2 7 =
       Inr (take (nat (7 - 2)) (drop (nat 2) v)))"
proof -
  have l: "Length originalRope (Some (root originalTree)) = Inr 8"
    by (simp add: Length_def originalRope_def originalTree_def)
  have h: "(0::int) \<le> 2" "(2::int) \<le> 7" "(7::int) \<le> 8"
    by simp_all
  show ?thesis
    using l h originalRope_rep Slice_is_Value_range[OF originalRope_rep l h]
    by blast
qed

text \<open>
  C6. In every node that a rope produced by \<^verbatim>\<open>NewRope\<close>, \<^verbatim>\<open>Insert\<close> or \<^verbatim>\<open>Remove\<close> reaches,
  the cached length is exact: the length of a leaf is the size of its buffer, the length
  of a split node is the sum of the lengths of its two children, and in both cases it is
  the number of elements that \<^verbatim>\<open>Value\<close> returns for the node.
\<close>

theorem cached_length_exact:
  fixes h :: "('a::zero, 'f) heap"
  assumes "produced cfg h r" and "reach h r a"
  shows "(case value_r (h ! a) of
            Some v \<Rightarrow> length_r (h ! a) = int (length v)
          | None \<Rightarrow> (\<exists>l r'. left (h ! a) = Some l \<and> right (h ! a) = Some r' \<and>
                length_r (h ! a) = length_r (h ! l) + length_r (h ! r'))) \<and>
         (\<exists>n. \<forall>k. \<exists>v. Value (n + k) h (Some a) = Inr v \<and> length_r (h ! a) = int (length v))"
proof -
  from produced_node[OF assms] obtain u where u: "rep cfg h u" "root u = a" by blast
  have "Value (Suc (height u) + k) h (Some a) = Inr (flatten u)" for k
    using Value_rep[OF u(1), of "Suc (height u) + k"] u(2) by simp
  moreover have "length_r (h ! a) = int (length (flatten u))"
    using rep_length[OF u(1)] u(2) by simp
  moreover have "case value_r (h ! a) of
            Some v \<Rightarrow> length_r (h ! a) = int (length v)
          | None \<Rightarrow> (\<exists>l r'. left (h ! a) = Some l \<and> right (h ! a) = Some r' \<and>
                length_r (h ! a) = length_r (h ! l) + length_r (h ! r'))"
  proof (cases u)
    case (Leaf b xs)
    with u show ?thesis by simp
  next
    case (Node b l r)
    with u rep_length[of cfg h l] rep_length[of cfg h r] show ?thesis by simp
  qed
  ultimately show ?thesis by blast
qed

theorem cached_length_exact_witness:
  "produced testSettings removedRope (Some 3) \<and> reach removedRope (Some 3) 3 \<and>
   (case value_r (removedRope ! 3) of
      Some v \<Rightarrow> length_r (removedRope ! 3) = int (length v)
    | None \<Rightarrow> (\<exists>l r'. left (removedRope ! 3) = Some l \<and> right (removedRope ! 3) = Some r' \<and>
          length_r (removedRope ! 3) = length_r (removedRope ! l) + length_r (removedRope ! r'))) \<and>
   (\<exists>n. \<forall>k. \<exists>v. Value (n + k) removedRope (Some 3) = Inr v \<and>
      length_r (removedRope ! 3) = int (length v))"
proof -
  have r: "reach removedRope (Some 3) 3"
    by (rule reach_root) (simp add: removedRope_def originalRope_def)
  show ?thesis
    using r removedRope_produced cached_length_exact[OF removedRope_produced r]
    by blast
qed

text \<open>
  C7. \<^verbatim>\<open>Remove(x, x)\<close> returns its receiver and leaves the store as it is, for every
  receiver, the \<^verbatim>\<open>nil\<close> pointer included, and every integer \<open>x\<close>; the value of the rope it
  returns is therefore the value of the receiver.
\<close>

theorem Remove_empty_range: "Remove (Suc n) h r x x = Inr (h, r)"
  by (simp add: Remove.simps(2))



text \<open>
  C9. With a split threshold of at least 1, \<^verbatim>\<open>NewRope\<close> terminates on every buffer: fuel
  linear in the length of the buffer is enough, because a buffer is split only when it
  has at least two elements and both halves are then strictly shorter. On a buffer that is
  not \<^verbatim>\<open>nil\<close> it returns a rope; on \<^verbatim>\<open>nil\<close> it returns or panics.
\<close>

theorem NewRope_terminates:
  "1 \<le> SplitLength cfg \<Longrightarrow>
   NewRope (2 * nat (len v) + 3 + k) h v cfg \<noteq> Inl OutOfFuel \<and>
   (v \<noteq> None \<longrightarrow> (\<exists>h' r. NewRope (2 * nat (len v) + 3 + k) h v cfg = Inr (h', r)))"
proof (cases v)
  case None
  then show ?thesis using NewRope_nil[of k h cfg] by (simp add: len_def add.commute)
next
  case (Some xs)
  assume "1 \<le> SplitLength cfg"
  from NewRope_returns[OF this, of xs "2 * length xs + 3 + k" h] Some
  show ?thesis by auto
qed

theorem NewRope_terminates_witness:
  "1 \<le> SplitLength testSettings \<and>
   NewRope (2 * nat (len (Some [0, 1, 2, 3, 4, 5, 6, 7 :: int])) + 3 + 0) []
     (Some [0, 1, 2, 3, 4, 5, 6, 7 :: int]) testSettings \<noteq> Inl OutOfFuel \<and>
   (\<exists>h' r. NewRope (2 * nat (len (Some [0, 1, 2, 3, 4, 5, 6, 7 :: int])) + 3 + 0) []
     (Some [0, 1, 2, 3, 4, 5, 6, 7 :: int]) testSettings = Inr (h', r))"
proof -
  have h: "1 \<le> SplitLength testSettings"
    by (simp add: testSettings_def)
  show ?thesis
    using h NewRope_terminates[OF h, of "Some [0, 1, 2, 3, 4, 5, 6, 7 :: int]" 0 "[]"] by simp
qed

text \<open>
  C10. Every node that a rope produced by \<^verbatim>\<open>NewRope\<close> from a buffer that is not \<^verbatim>\<open>nil\<close>, or
  derived from such a rope by \<^verbatim>\<open>Insert\<close> and \<^verbatim>\<open>Remove\<close>, reaches is a node of the store and
  has one of two shapes: a leaf with a buffer and no children, or a split node with no
  buffer and two children, which are reached as well. No traversal therefore meets a
  split node with a missing child: given enough fuel, \<^verbatim>\<open>Value\<close> (through \<^verbatim>\<open>Copy\<close>),
  \<^verbatim>\<open>Slice\<close> over the whole range (through \<^verbatim>\<open>CopySlice\<close>) and \<^verbatim>\<open>Rebalance\<close> return on such
  a rope and do not panic.
\<close>

theorem node_shapes:
  fixes h :: "('a::zero, 'f) heap"
  assumes "produced cfg h r" and "reach h r a"
  shows "a < length h \<and>
    ((value_r (h ! a) \<noteq> None \<and> left (h ! a) = None \<and> right (h ! a) = None) \<or>
     (value_r (h ! a) = None \<and>
      (\<exists>l r'. left (h ! a) = Some l \<and> right (h ! a) = Some r' \<and> reach h r l \<and> reach h r r'))) \<and>
    (\<exists>n. \<forall>k. \<exists>v s h'. Value (n + k) h r = Inr v \<and>
        Slice (n + k) h r 0 (int (length v)) = Inr s \<and>
        Rebalance gt (n + k) h r = Inr h')"
proof -
  from produced_node[OF assms] obtain u where u: "rep cfg h u" "root u = a" by blast
  have shape: "a < length h \<and>
    ((value_r (h ! a) \<noteq> None \<and> left (h ! a) = None \<and> right (h ! a) = None) \<or>
     (value_r (h ! a) = None \<and>
      (\<exists>l r'. left (h ! a) = Some l \<and> right (h ! a) = Some r' \<and> reach h r l \<and> reach h r r')))"
  proof (cases u)
    case (Leaf b xs)
    with u show ?thesis by simp
  next
    case (Node b l r')
    with u have "left (h ! a) = Some (root l)" "right (h ! a) = Some (root r')"
      "value_r (h ! a) = None" "a < length h" by auto
    with reach_left[OF assms(2)] reach_right[OF assms(2)] show ?thesis by simp
  qed
  from produced_rep[OF assms(1)] obtain t where t: "rep cfg h t" "r = Some (root t)"
    "distinct (addrs t)" "height t = 0 \<or> 1 \<le> SplitLength cfg" by blast
  let ?n = "height t + 2 * length (flatten t) + 3"
  have "\<exists>v s h'. Value (?n + k) h r = Inr v \<and> Slice (?n + k) h r 0 (int (length v)) = Inr s \<and>
        Rebalance gt (?n + k) h r = Inr h'" for k
    using Value_rep[OF t(1), of "?n + k"] Slice_rep_all[OF t(1), of "?n + k"]
      Rebalance_returns[OF t(1,3,4), of "?n + k" gt] t(2) by auto
  with shape show ?thesis by blast
qed

theorem node_shapes_witness:
  "produced testSettings removedRope (Some 3) \<and> reach removedRope (Some 3) 4 \<and>
   4 < length removedRope \<and>
   ((value_r (removedRope ! 4) \<noteq> None \<and> left (removedRope ! 4) = None \<and>
     right (removedRope ! 4) = None) \<or>
    (value_r (removedRope ! 4) = None \<and>
     (\<exists>l r'. left (removedRope ! 4) = Some l \<and> right (removedRope ! 4) = Some r' \<and>
        reach removedRope (Some 3) l \<and> reach removedRope (Some 3) r'))) \<and>
   (\<exists>n. \<forall>k. \<exists>v s h'. Value (n + k) removedRope (Some 3) = Inr v \<and>
      Slice (n + k) removedRope (Some 3) 0 (int (length v)) = Inr s \<and>
      Rebalance ratio_exceeds (n + k) removedRope (Some 3) = Inr h')"
proof -
  have "reach removedRope (Some 3) 3"
    by (rule reach_root) (simp add: removedRope_def originalRope_def)
  then have r: "reach removedRope (Some 3) 4"
    by (rule reach_left) (simp add: removedRope_def originalRope_def)
  show ?thesis
    using r removedRope_produced node_shapes[OF removedRope_produced r, of ratio_exceeds]
    by blast
qed

end
